theory Spec2Isabelle
  imports Main "HOL-Library.AList"
begin


section \<open>Values, keys and VNodes\<close>

text \<open>
  A VNode key is \<open>string | number | null\<close>. \<open>None\<close> is \<open>null\<close>; number keys are
  the integers and \<open>NaN\<close> (the fractional numbers are left out of the model).
\<close>

datatype keyv = KStr string | KNum int | KNaN

text \<open>
  A VNode type is a host tag (a string), a symbol (\<open>TEXT_ELEMENT\<close>, \<open>Fragment\<close>) or a
  component function. Symbols and functions are compared by identity in the source: the
  number is that identity, the string is the symbol's description or the function's
  \<open>name\<close> (empty when it has none).
\<close>

datatype node_type = TString string | TSymbol nat string | TFunction nat string

text \<open>
  JavaScript values as far as the hook system looks at them. An object is a reference
  (its identity) with a snapshot of its fields; an effect hook is the object
  \<open>{kind: "effect", deps, cleanup, effect}\<close> of \<open>useEffect\<close>, whose cleanup and
  effect functions are function identities.
\<close>

datatype jsval =
    VUndefined
  | VNull
  | VBool bool
  | VNum int
  | VNaN
  | VStr string
  | VObj nat "(string \<times> jsval) list"
  | VFun nat
  | VEffect (hook_deps: "jsval list option") (hook_cleanup: "nat option") (hook_effect: nat)

text \<open>
  \<open>{type, key, props}\<close>. The props object is split into the three parts the engine
  reads: \<open>props.nodeValue\<close>, the other props, and \<open>props.children\<close>. An entry
  \<open>None\<close> of a children array is an empty value (\<open>null\<close>, \<open>undefined\<close> or a boolean).
\<close>

datatype vnode =
  VNode (vtype: node_type) (vkey: "keyv option") (nodeValue: "string option")
        (vattrs: "(string \<times> jsval) list") (vchildren: "vnode option list")

subsection \<open>Number and key printing\<close>

definition digit_char :: "nat \<Rightarrow> char" where
  "digit_char n = ''0123456789'' ! n"

text \<open>The decimal digits of a number, as \<open>String(n)\<close> writes an integer.\<close>

fun decimal :: "nat \<Rightarrow> string" where
  "decimal n = (if 10 \<le> n then decimal (n div 10) else []) @ [digit_char (n mod 10)]"

declare decimal.simps [simp del]

definition String_number :: "int \<Rightarrow> string" where
  "String_number i = (if 0 \<le> i then decimal (nat i) else CHR ''-'' # decimal (nat (- i)))"

text \<open>\<open>String(key)\<close> for a non-null key.\<close>

fun String_key :: "keyv \<Rightarrow> string" where
  "String_key (KStr s) = s"
| "String_key (KNum n) = String_number n"
| "String_key KNaN = ''NaN''"

section \<open>Identity addressing (elements.ts)\<close>

text \<open>Truthiness of \<open>nodeType\<close>: only the empty string is falsy.\<close>

fun truthy_type :: "node_type \<Rightarrow> bool" where
  "truthy_type (TString s) = (s \<noteq> [])"
| "truthy_type (TSymbol i d) = True"
| "truthy_type (TFunction i n) = True"

text \<open>
  The type name: a function's name or \<open>"Anonymous"\<close>, a symbol's description or
  \<open>"Symbol"\<close>, a string as it is.
\<close>

fun typeName :: "node_type \<Rightarrow> string" where
  "typeName (TFunction i n) = (if n \<noteq> [] then n else ''Anonymous'')"
| "typeName (TSymbol i d) = (if d \<noteq> [] then d else ''Symbol'')"
| "typeName (TString s) = s"

text \<open>\<open>siblings[i]?.type\<close>: \<open>None\<close> is \<open>undefined\<close>.\<close>

definition sibling_type :: "vnode option list \<Rightarrow> nat \<Rightarrow> node_type option" where
  "sibling_type siblings i =
     (if i < length siblings then map_option vtype (siblings ! i) else None)"

text \<open>The loop \<open>for (let i = 0; i < index; i++) if (siblings[i]?.type === nodeType) typeIndex++\<close>.\<close>

definition typeIndex :: "vnode option list \<Rightarrow> node_type \<Rightarrow> nat \<Rightarrow> nat" where
  "typeIndex siblings nodeType index =
     length (filter (\<lambda>i. sibling_type siblings i = Some nodeType) [0..<index])"

text \<open>
  \<open>createChildPath(parentPath, key, index, nodeType?, siblings?)\<close>; an argument that is
  left out is \<open>None\<close>.
\<close>

definition createChildPath ::
  "string \<Rightarrow> keyv option \<Rightarrow> nat \<Rightarrow> node_type option \<Rightarrow> vnode option list option \<Rightarrow> string" where
  "createChildPath parentPath key index nodeType siblings =
     (case key of
        Some k \<Rightarrow> parentPath @ ''.k'' @ String_key k
      | None \<Rightarrow>
          (case (nodeType, siblings) of
             (Some t, Some sibs) \<Rightarrow>
               (if truthy_type t
                then parentPath @ ''.c'' @ typeName t @ ''_'' @ decimal (typeIndex sibs t index)
                else parentPath @ ''.i'' @ decimal index)
           | _ \<Rightarrow> parentPath @ ''.i'' @ decimal index))"

text \<open>
  The ordinal as the specification words it: the same-type keyless siblings before the
  child.
\<close>

definition keyless_ordinal :: "vnode option list \<Rightarrow> node_type \<Rightarrow> nat \<Rightarrow> nat" where
  "keyless_ordinal siblings nodeType index =
     length (filter (\<lambda>i. case (if i < length siblings then siblings ! i else None) of
                            Some n \<Rightarrow> vtype n = nodeType \<and> vkey n = None
                          | None \<Rightarrow> False) [0..<index])"

section \<open>The engine state (context.ts)\<close>

datatype inst_kind = HOST | TEXT | FRAGMENT | COMPONENT

text \<open>
  An Instance is a mutable object of the source; the model keeps the Instances in a store
  and refers to one by its address, so that two references to one Instance see the
  same fields. \<open>i_dom\<close> is the address of the host node, \<open>i_children\<close> the addresses of the
  child Instances.
\<close>

record inst =
  i_kind :: inst_kind
  i_dom :: "nat option"
  i_node :: vnode
  i_children :: "nat list"
  i_key :: "keyv option"
  i_path :: string

text \<open>A host node: an element (\<open>d_tag = Some tag\<close>) or a text node, with its place in the tree.\<close>

record dom_node =
  d_tag :: "string option"
  d_text :: string
  d_parent :: "nat option"
  d_childNodes :: "nat list"

text \<open>
  The microtask queue holds the two closures the source enqueues: the one of
  \<open>withEnqueue(render)\<close> and the effect flush of a render pass with its snapshot.
\<close>

datatype task = RenderTask | FlushTask "(string \<times> nat) list"

text \<open>
  What the engine does to code it does not own is recorded: applying props to a host node
  (\<open>setDomProps\<close>, \<open>updateDomProps\<close>), and calling a cleanup or an effect function of the
  slot \<open>(path, cursor)\<close>.
\<close>

datatype event =
    SetDomProps nat "(string \<times> jsval) list"
  | UpdateDomProps nat "(string \<times> jsval) list" "(string \<times> jsval) list"
  | CallCleanup string nat nat
  | CallEffect string nat nat

datatype error =
    HookOutsideComponent
  | TypeError
  | NotFoundError
  | ComponentThrew
  | SetupError
  | Unmodelled
  | OutOfFuel

text \<open>
  \<open>context.root\<close>, \<open>context.hooks\<close> and \<open>context.effects\<close>, then the latch of
  \<open>enqueueRender\<close>, the microtask queue, the Instance store, the host tree and the record
  of outside calls. A JavaScript \<open>Map\<close> is an association list in insertion order, the
  \<open>Set\<close> of visited paths a list.
\<close>

record engine =
  root_container :: "nat option"
  root_node :: "vnode option"
  root_instance :: "nat option"
  hooks_state :: "(string \<times> jsval list) list"
  hooks_cursor :: "(string \<times> nat) list"
  hooks_visited :: "string list"
  hooks_componentStack :: "string list"
  effects_queue :: "(string \<times> nat) list"
  scheduled :: bool
  microtasks :: "task list"
  instances :: "(nat \<times> inst) list"
  next_instance :: nat
  dom_nodes :: "(nat \<times> dom_node) list"
  next_dom :: nat
  trace :: "event list"

type_synonym 'a M = "engine \<Rightarrow> (error + 'a) \<times> engine"

definition returnM :: "'a \<Rightarrow> 'a M" where
  "returnM x = (\<lambda>s. (Inr x, s))"

definition throwM :: "error \<Rightarrow> 'a M" where
  "throwM e = (\<lambda>s. (Inl e, s))"

definition bindM :: "'a M \<Rightarrow> ('a \<Rightarrow> 'b M) \<Rightarrow> 'b M" where
  "bindM m f = (\<lambda>s. case m s of (Inl e, s') \<Rightarrow> (Inl e, s') | (Inr x, s') \<Rightarrow> f x s')"

text \<open>A step that cannot throw.\<close>

definition liftM :: "(engine \<Rightarrow> engine) \<Rightarrow> unit M" where
  "liftM f = (\<lambda>s. (Inr (), f s))"

section \<open>The render scheduler (enqueue.ts)\<close>

text \<open>\<open>enqueue(callback)\<close>: \<open>queueMicrotask(callback)\<close>.\<close>

definition enqueue :: "task \<Rightarrow> engine \<Rightarrow> engine" where
  "enqueue callback s = s\<lparr>microtasks := microtasks s @ [callback]\<rparr>"

text \<open>
  \<open>enqueueRender = withEnqueue(render)\<close>: the closure returns at once while the latch is
  set, else it sets the latch and enqueues the task that clears it and runs \<open>render\<close>.
\<close>

definition enqueueRender :: "engine \<Rightarrow> engine" where
  "enqueueRender s = (if scheduled s then s else enqueue RenderTask (s\<lparr>scheduled := True\<rparr>))"

section \<open>The hook state system (hooks.ts)\<close>

text \<open>
  \<open>Object.is\<close>: objects and functions by identity, whatever their fields; the other
  values by value (\<open>NaN\<close> is \<open>NaN\<close>).
\<close>

fun Object_is :: "jsval \<Rightarrow> jsval \<Rightarrow> bool" where
  "Object_is (VObj i f) (VObj j g) = (i = j)"
| "Object_is (VFun i) (VFun j) = (i = j)"
| "Object_is a b = (a = b)"

text \<open>
  \<open>shallowEquals(prevEffectHook.deps, normalizedDeps)\<close> at the arguments \<open>useEffect\<close>
  passes: the stored deps are \<open>null\<close> or an array, the new ones an array. Two arrays are
  equal when they have one length and \<open>Object.is\<close> holds element by element (the test
  \<open>Object.is(a, b)\<close> on the arrays themselves only shortens that).
\<close>

fun shallowEquals :: "jsval list option \<Rightarrow> jsval list \<Rightarrow> bool" where
  "shallowEquals None b = False"
| "shallowEquals (Some a) b = (length a = length b \<and> list_all2 Object_is a b)"

text \<open>\<open>xs[i]\<close> and \<open>xs[i] = v\<close> on a JavaScript array.\<close>

definition array_get :: "jsval list \<Rightarrow> nat \<Rightarrow> jsval" where
  "array_get xs i = (if i < length xs then xs ! i else VUndefined)"

definition array_set :: "jsval list \<Rightarrow> nat \<Rightarrow> jsval \<Rightarrow> jsval list" where
  "array_set xs i v =
     (if i < length xs then xs[i := v] else xs @ replicate (i - length xs) VUndefined @ [v])"

text \<open>The getters of \<open>context.hooks\<close>.\<close>

definition currentPath :: "string M" where
  "currentPath s =
     (if hooks_componentStack s = [] then (Inl HookOutsideComponent, s)
      else (Inr (last (hooks_componentStack s)), s))"

definition currentCursor :: "nat M" where
  "currentCursor =
     bindM currentPath (\<lambda>path s.
       (Inr (case map_of (hooks_cursor s) path of None \<Rightarrow> 0 | Some c \<Rightarrow> c), s))"

definition currentHooks :: "jsval list M" where
  "currentHooks =
     bindM currentPath (\<lambda>path s.
       (case map_of (hooks_state s) path of
          None \<Rightarrow> (Inr [], s\<lparr>hooks_state := AList.update path [] (hooks_state s)\<rparr>)
        | Some hooks \<Rightarrow> (Inr hooks, s)))"

text \<open>The argument of \<open>useState\<close>: a value, or a thunk (given by the value it returns).\<close>

datatype init = InitValue jsval | InitThunk jsval

fun initialState :: "init \<Rightarrow> jsval" where
  "initialState (InitValue v) = v"
| "initialState (InitThunk v) = v"

text \<open>The argument of a setter: a value, or an updater over the previous value.\<close>

datatype setarg = NextValue jsval | Updater "jsval \<Rightarrow> jsval"

fun newState :: "setarg \<Rightarrow> jsval \<Rightarrow> jsval" where
  "newState (NextValue v) prevState = v"
| "newState (Updater f) prevState = f prevState"

text \<open>
  The closure \<open>setState\<close> that \<open>useState\<close> returns, given by the \<open>currentPath\<close> and
  \<open>currentCursor\<close> it captured. \<open>state.get(currentPath)\<close> of a path that is not stored is
  \<open>undefined\<close>, and indexing it throws a \<open>TypeError\<close>.
\<close>

definition setState :: "string \<Rightarrow> nat \<Rightarrow> setarg \<Rightarrow> unit M" where
  "setState currentPath' currentCursor' nextValue s =
     (case map_of (hooks_state s) currentPath' of
        None \<Rightarrow> (Inl TypeError, s)
      | Some stateArray \<Rightarrow>
          (let prevState = array_get stateArray currentCursor';
               new = newState nextValue prevState
           in if Object_is prevState new then (Inr (), s)
              else (Inr (),
                    enqueueRender
                      (s\<lparr>hooks_state :=
                           AList.update currentPath' (array_set stateArray currentCursor' new)
                             (hooks_state s)\<rparr>))))"

text \<open>\<open>useState(initialValue)\<close> returns the state and the captured \<open>(path, cursor)\<close> of its setter.\<close>

definition useState :: "init \<Rightarrow> (jsval \<times> string \<times> nat) M" where
  "useState initialValue =
     bindM currentPath (\<lambda>path.
     bindM currentCursor (\<lambda>cur.
     bindM currentHooks (\<lambda>hooks0 s.
       (let hooks = (if cur \<ge> length hooks0 then hooks0 @ [initialState initialValue] else hooks0);
            st = array_get hooks cur
        in (Inr (st, path, cur),
            s\<lparr>hooks_state := AList.update path hooks (hooks_state s),
              hooks_cursor := AList.update path (cur + 1) (hooks_cursor s)\<rparr>)))))"

text \<open>
  \<open>useEffect(effect, deps?)\<close>; \<open>deps = None\<close> is \<open>undefined\<close>, stored as \<open>null\<close>. A slot
  that exists is read as an effect hook without a check. On a slot that holds
  \<open>null\<close>, \<open>undefined\<close> or a primitive the property accesses throw a \<open>TypeError\<close> (the
  module is strict code); on a state object the source would write \<open>deps\<close> and
  \<open>effect\<close> fields into that object, which is outside this model.
\<close>

definition useEffect :: "nat \<Rightarrow> jsval list option \<Rightarrow> unit M" where
  "useEffect effect deps =
     bindM currentPath (\<lambda>path.
     bindM currentCursor (\<lambda>cur.
     bindM currentHooks (\<lambda>hooks s.
       (if cur \<ge> length hooks then
          (Inr (),
           s\<lparr>hooks_state := AList.update path (hooks @ [VEffect deps None effect]) (hooks_state s),
             effects_queue := effects_queue s @ [(path, cur)],
             hooks_cursor := AList.update path (cur + 1) (hooks_cursor s)\<rparr>)
        else
          (case hooks ! cur of
             VEffect prevDeps prevCleanup prevEffect \<Rightarrow>
               (let depsChanged = (case deps of None \<Rightarrow> True | Some d \<Rightarrow> \<not> shallowEquals prevDeps d)
                in if depsChanged then
                     (Inr (),
                      s\<lparr>hooks_state :=
                           AList.update path (hooks[cur := VEffect deps prevCleanup effect]) (hooks_state s),
                        effects_queue := effects_queue s @ [(path, cur)],
                        hooks_cursor := AList.update path (cur + 1) (hooks_cursor s)\<rparr>)
                   else
                     (Inr (), s\<lparr>hooks_cursor := AList.update path (cur + 1) (hooks_cursor s)\<rparr>))
           | VObj i f \<Rightarrow> (Inl Unmodelled, s)
           | VFun i \<Rightarrow> (Inl Unmodelled, s)
           | _ \<Rightarrow> (Inl TypeError, s))))))"

text \<open>
  The inner loop of \<open>cleanupUnusedHooks\<close> over the hooks of one path, from index \<open>i\<close>
  on: the cleanup of an effect hook is called and set to \<open>null\<close>. It returns the calls
  and the hooks as they are left.
\<close>

fun cleanupHooks :: "string \<Rightarrow> nat \<Rightarrow> jsval list \<Rightarrow> event list \<times> jsval list" where
  "cleanupHooks path i [] = ([], [])"
| "cleanupHooks path i (VEffect d (Some c) e # hooks) =
     (case cleanupHooks path (i + 1) hooks of
        (calls, hooks') \<Rightarrow> (CallCleanup path i c # calls, VEffect d None e # hooks'))"
| "cleanupHooks path i (hook # hooks) =
     (case cleanupHooks path (i + 1) hooks of (calls, hooks') \<Rightarrow> (calls, hook # hooks'))"

text \<open>The body of \<open>for (const path of pathsToDelete)\<close>.\<close>

definition cleanupPath :: "string \<Rightarrow> engine \<Rightarrow> engine" where
  "cleanupPath path s =
     (let s1 = (case map_of (hooks_state s) path of
                  None \<Rightarrow> s
                | Some hooks \<Rightarrow>
                    (case cleanupHooks path 0 hooks of
                       (calls, hooks') \<Rightarrow>
                         s\<lparr>trace := trace s @ calls,
                           hooks_state := AList.update path hooks' (hooks_state s)\<rparr>))
      in s1\<lparr>hooks_state := AList.delete path (hooks_state s1),
            hooks_cursor := AList.delete path (hooks_cursor s1)\<rparr>)"

definition cleanupUnusedHooks :: "engine \<Rightarrow> engine" where
  "cleanupUnusedHooks s =
     (let pathsToDelete = filter (\<lambda>path. path \<notin> set (hooks_visited s)) (map fst (hooks_state s))
      in fold cleanupPath pathsToDelete s)"

section \<open>The host tree (dom.ts)\<close>

text \<open>
  The DOM calls the engine makes, on the host tree of the state. A new node gets the next
  free address.
\<close>

definition createElement :: "string \<Rightarrow> nat M" where
  "createElement tag s =
     (Inr (next_dom s),
      s\<lparr>dom_nodes := AList.update (next_dom s)
            \<lparr>d_tag = Some tag, d_text = [], d_parent = None, d_childNodes = []\<rparr> (dom_nodes s),
        next_dom := next_dom s + 1\<rparr>)"

definition createTextNode :: "string \<Rightarrow> nat M" where
  "createTextNode text s =
     (Inr (next_dom s),
      s\<lparr>dom_nodes := AList.update (next_dom s)
            \<lparr>d_tag = None, d_text = text, d_parent = None, d_childNodes = []\<rparr> (dom_nodes s),
        next_dom := next_dom s + 1\<rparr>)"

definition parentNode :: "engine \<Rightarrow> nat \<Rightarrow> nat option" where
  "parentNode s d = (case map_of (dom_nodes s) d of None \<Rightarrow> None | Some n \<Rightarrow> d_parent n)"

definition childNodes :: "engine \<Rightarrow> nat \<Rightarrow> nat list" where
  "childNodes s d = (case map_of (dom_nodes s) d of None \<Rightarrow> [] | Some n \<Rightarrow> d_childNodes n)"

definition set_parentNode :: "nat \<Rightarrow> nat option \<Rightarrow> engine \<Rightarrow> engine" where
  "set_parentNode d p s =
     (case map_of (dom_nodes s) d of
        None \<Rightarrow> s
      | Some n \<Rightarrow> s\<lparr>dom_nodes := AList.update d (n\<lparr>d_parent := p\<rparr>) (dom_nodes s)\<rparr>)"

definition set_childNodes :: "nat \<Rightarrow> nat list \<Rightarrow> engine \<Rightarrow> engine" where
  "set_childNodes d cs s =
     (case map_of (dom_nodes s) d of
        None \<Rightarrow> s
      | Some n \<Rightarrow> s\<lparr>dom_nodes := AList.update d (n\<lparr>d_childNodes := cs\<rparr>) (dom_nodes s)\<rparr>)"

text \<open>\<open>node.parentNode?.removeChild(node)\<close>.\<close>

definition removeChild :: "nat \<Rightarrow> engine \<Rightarrow> engine" where
  "removeChild node s =
     (case parentNode s node of
        None \<Rightarrow> s
      | Some p \<Rightarrow> set_parentNode node None (set_childNodes p (removeAll node (childNodes s p)) s))"

text \<open>\<open>parentDom.appendChild(node)\<close>: the node leaves its old place first.\<close>

definition appendChild :: "nat \<Rightarrow> nat \<Rightarrow> engine \<Rightarrow> engine" where
  "appendChild parentDom node s =
     (let s1 = removeChild node s
      in set_parentNode node (Some parentDom) (set_childNodes parentDom (childNodes s1 parentDom @ [node]) s1))"

text \<open>
  \<open>parentDom.insertBefore(node, anchor)\<close> throws a \<open>NotFoundError\<close> unless the anchor is
  a child of \<open>parentDom\<close>. Inserting a node before itself inserts it before its next
  sibling. (The hierarchy checks of the DOM are not modelled.)
\<close>

definition nextSibling :: "nat list \<Rightarrow> nat \<Rightarrow> nat option" where
  "nextSibling siblings node =
     (case dropWhile (\<lambda>x. x \<noteq> node) siblings of (x # y # ys) \<Rightarrow> Some y | _ \<Rightarrow> None)"

definition insert_before :: "nat list \<Rightarrow> nat \<Rightarrow> nat option \<Rightarrow> nat list" where
  "insert_before siblings node reference =
     (case reference of
        None \<Rightarrow> siblings @ [node]
      | Some r \<Rightarrow> takeWhile (\<lambda>x. x \<noteq> r) siblings @ [node] @ dropWhile (\<lambda>x. x \<noteq> r) siblings)"

definition insertBefore :: "nat \<Rightarrow> nat \<Rightarrow> nat \<Rightarrow> unit M" where
  "insertBefore parentDom node anchor s =
     (if parentNode s anchor \<noteq> Some parentDom then (Inl NotFoundError, s)
      else
        (let reference = (if anchor = node then nextSibling (childNodes s parentDom) node else Some anchor);
             s1 = removeChild node s
         in (Inr (),
             set_parentNode node (Some parentDom)
               (set_childNodes parentDom (insert_before (childNodes s1 parentDom) node reference) s1))))"

text \<open>
  \<open>setDomProps\<close> and \<open>updateDomProps\<close> set attributes, styles and listeners of one host
  node; the call is recorded with its arguments.
\<close>

definition setDomProps :: "nat \<Rightarrow> (string \<times> jsval) list \<Rightarrow> engine \<Rightarrow> engine" where
  "setDomProps d props s = s\<lparr>trace := trace s @ [SetDomProps d props]\<rparr>"

definition updateDomProps ::
  "nat \<Rightarrow> (string \<times> jsval) list \<Rightarrow> (string \<times> jsval) list \<Rightarrow> engine \<Rightarrow> engine" where
  "updateDomProps d prevProps nextProps s = s\<lparr>trace := trace s @ [UpdateDomProps d prevProps nextProps]\<rparr>"

text \<open>
  The walks over the Instance tree take the depth they may descend to: \<open>OutOfFuel\<close> stands
  for the stack overflow of a walk that does not end. An address without an Instance
  (there is none in a store the engine built) is \<open>Unmodelled\<close>.
\<close>

definition get_inst :: "nat \<Rightarrow> inst M" where
  "get_inst i s = (case map_of (instances s) i of None \<Rightarrow> (Inl Unmodelled, s) | Some I \<Rightarrow> (Inr I, s))"

text \<open>Running \<open>f\<close> over a list, gathering the results (\<open>for (const x of xs) ...\<close>).\<close>

fun forM :: "'a list \<Rightarrow> ('a \<Rightarrow> 'b M) \<Rightarrow> 'b list M" where
  "forM [] f = returnM []"
| "forM (x # xs) f = bindM (f x) (\<lambda>y. bindM (forM xs f) (\<lambda>ys. returnM (y # ys)))"

fun getDomNodes :: "nat \<Rightarrow> nat \<Rightarrow> nat list M" where
  "getDomNodes 0 instance' = throwM OutOfFuel"
| "getDomNodes (Suc n) instance' =
     bindM (get_inst instance') (\<lambda>I.
       if i_kind I = HOST \<or> i_kind I = TEXT
       then returnM (case i_dom I of Some d \<Rightarrow> [d] | None \<Rightarrow> [])
       else bindM (forM (i_children I) (\<lambda>child. getDomNodes n child)) (\<lambda>nodes. returnM (concat nodes)))"

text \<open>
  \<open>getFirstDom\<close> and \<open>getFirstDomFromChildren\<close>: the first host node of an Instance, of a
  list of Instances.
\<close>

fun firstSome :: "'a list \<Rightarrow> ('a \<Rightarrow> 'b option M) \<Rightarrow> 'b option M" where
  "firstSome [] f = returnM None"
| "firstSome (x # xs) f = bindM (f x) (\<lambda>r. case r of Some d \<Rightarrow> returnM (Some d) | None \<Rightarrow> firstSome xs f)"

fun getFirstDom :: "nat \<Rightarrow> nat \<Rightarrow> nat option M" where
  "getFirstDom 0 instance' = throwM OutOfFuel"
| "getFirstDom (Suc n) instance' =
     bindM (get_inst instance') (\<lambda>I.
       if i_kind I = HOST \<or> i_kind I = TEXT then returnM (i_dom I)
       else firstSome (i_children I) (\<lambda>child. getFirstDom n child))"

definition getFirstDomFromChildren :: "nat \<Rightarrow> nat list \<Rightarrow> nat option M" where
  "getFirstDomFromChildren n children = firstSome children (\<lambda>child. getFirstDom n child)"

text \<open>\<open>insertInstance(parentDom, instance, anchor = null)\<close>.\<close>

fun insertNodes :: "nat \<Rightarrow> nat list \<Rightarrow> nat option \<Rightarrow> unit M" where
  "insertNodes parentDom [] anchor = returnM ()"
| "insertNodes parentDom (node # nodes) anchor =
     bindM (case anchor of
              Some a \<Rightarrow> insertBefore parentDom node a
            | None \<Rightarrow> liftM (appendChild parentDom node))
       (\<lambda>u. insertNodes parentDom nodes anchor)"

definition insertInstance :: "nat \<Rightarrow> nat \<Rightarrow> nat \<Rightarrow> nat option \<Rightarrow> unit M" where
  "insertInstance n parentDom instance' anchor =
     bindM (getDomNodes n instance') (\<lambda>domNodes. insertNodes parentDom domNodes anchor)"

text \<open>\<open>removeInstance(instance)\<close>.\<close>

definition removeInstance :: "nat \<Rightarrow> nat \<Rightarrow> unit M" where
  "removeInstance n instance' =
     bindM (getDomNodes n instance') (\<lambda>domNodes. liftM (fold removeChild domNodes))"

section \<open>Components\<close>

text \<open>
  Modelled from the spec: the constants module (\<open>TEXT_ELEMENT\<close>, \<open>Fragment\<close>, \<open>NodeTypes\<close>,
  \<open>HookTypes\<close>) is not among the sources; the text marker and the fragment marker are two
  symbols, told apart by their identities only.
\<close>

definition TEXT_ELEMENT :: node_type where
  "TEXT_ELEMENT = TSymbol 0 ''TEXT_ELEMENT''"

definition Fragment :: node_type where
  "Fragment = TSymbol 1 ''Fragment''"

text \<open>
  A component function is code of the application. What it does to the engine it does
  through the hooks, in some order that may depend on the states it reads, until it
  returns a VNode or \<open>null\<close>, or throws. (A component that calls a setter while it
  renders is not covered.)
\<close>

datatype comp =
    Return "vnode option"
  | UseState init "jsval \<Rightarrow> comp"
  | UseEffect nat "jsval list option" comp
  | Throw

primrec run_comp :: "comp \<Rightarrow> vnode option M" where
  "run_comp (Return v) = returnM v"
| "run_comp (UseState initialValue k) = bindM (useState initialValue) (\<lambda>r. run_comp (k (fst r)))"
| "run_comp (UseEffect effect deps k) = bindM (useEffect effect deps) (\<lambda>u. run_comp k)"
| "run_comp Throw = throwM ComponentThrew"

text \<open>The component functions by identity: props (without and with children) to body.\<close>

type_synonym components = "nat \<Rightarrow> (string \<times> jsval) list \<Rightarrow> vnode option list \<Rightarrow> comp"

section \<open>The reconciler (reconciler.ts)\<close>

text \<open>\<open>a === b\<close> on keys: \<open>NaN\<close> is not equal to itself.\<close>

fun key_strict_eq :: "keyv option \<Rightarrow> keyv option \<Rightarrow> bool" where
  "key_strict_eq (Some KNaN) b = False"
| "key_strict_eq a (Some KNaN) = False"
| "key_strict_eq a b = (a = b)"

text \<open>Truthiness of \<open>child.key\<close>: \<open>null\<close>, \<open>0\<close>, \<open>NaN\<close> and the empty string are falsy.\<close>

fun truthy_key :: "keyv option \<Rightarrow> bool" where
  "truthy_key None = False"
| "truthy_key (Some (KStr s)) = (s \<noteq> [])"
| "truthy_key (Some (KNum n)) = (n \<noteq> 0)"
| "truthy_key (Some KNaN) = False"

definition new_instance :: "inst \<Rightarrow> nat M" where
  "new_instance I s =
     (Inr (next_instance s),
      s\<lparr>instances := AList.update (next_instance s) I (instances s),
        next_instance := next_instance s + 1\<rparr>)"

definition put_inst :: "nat \<Rightarrow> inst \<Rightarrow> engine \<Rightarrow> engine" where
  "put_inst i I s = s\<lparr>instances := AList.update i I (instances s)\<rparr>"

text \<open>\<open>instance.children = newChildren\<close>.\<close>

definition set_children :: "nat \<Rightarrow> nat list \<Rightarrow> unit M" where
  "set_children i newChildren =
     bindM (get_inst i) (\<lambda>I. liftM (put_inst i (I\<lparr>i_children := newChildren\<rparr>)))"

text \<open>\<open>unmount(instance)\<close>: the children first, then the host nodes of the Instance.\<close>

fun unmount :: "nat \<Rightarrow> nat \<Rightarrow> unit M" where
  "unmount 0 instance' = throwM OutOfFuel"
| "unmount (Suc n) instance' =
     bindM (get_inst instance') (\<lambda>I.
     bindM (forM (i_children I) (\<lambda>child. unmount n child)) (\<lambda>us.
     removeInstance (Suc n) instance'))"

text \<open>
  The map \<open>oldChildrenByKey\<close>: every old child whose key is not \<open>null\<close> is set under its
  key, a later one replacing an earlier one with the same key.
\<close>

fun buildKeyMap :: "nat list \<Rightarrow> (keyv \<times> nat) list \<Rightarrow> (keyv \<times> nat) list M" where
  "buildKeyMap [] oldChildrenByKey = returnM oldChildrenByKey"
| "buildKeyMap (oldChild # rest) oldChildrenByKey =
     bindM (get_inst oldChild) (\<lambda>I.
       case i_key I of
         Some k \<Rightarrow> buildKeyMap rest (AList.update k oldChild oldChildrenByKey)
       | None \<Rightarrow> buildKeyMap rest oldChildrenByKey)"

text \<open>\<open>xs[i] ?? null\<close> on the array of old children.\<close>

definition child_at :: "nat list \<Rightarrow> nat \<Rightarrow> nat option" where
  "child_at xs i = (if i < length xs then Some (xs ! i) else None)"

definition set_add :: "'a \<Rightarrow> 'a list \<Rightarrow> 'a list" where
  "set_add x xs = (if x \<in> set xs then xs else xs @ [x])"

text \<open>
  The choice of the old Instance for the new child at index \<open>i\<close>: by its key in the map
  when \<open>child.key\<close> is truthy, else the old child at the same index. It returns the
  choice, the map and the set of used old children.
\<close>

definition selectOldChild ::
  "vnode \<Rightarrow> nat \<Rightarrow> nat list \<Rightarrow> (keyv \<times> nat) list \<Rightarrow> nat list
   \<Rightarrow> nat option \<times> (keyv \<times> nat) list \<times> nat list" where
  "selectOldChild child i oldChildren oldChildrenByKey usedOldChildren =
     (if truthy_key (vkey child) then
        (case vkey child of
           None \<Rightarrow> (None, oldChildrenByKey, usedOldChildren)
         | Some k \<Rightarrow>
             (case map_of oldChildrenByKey k of
                None \<Rightarrow> (None, oldChildrenByKey, usedOldChildren)
              | Some oldChild \<Rightarrow>
                  (Some oldChild, AList.delete k oldChildrenByKey, set_add oldChild usedOldChildren)))
      else
        (case child_at oldChildren i of
           None \<Rightarrow> (None, oldChildrenByKey, usedOldChildren)
         | Some oldChild \<Rightarrow> (Some oldChild, oldChildrenByKey, set_add oldChild usedOldChildren)))"

text \<open>
  The loop over the new children from index \<open>i\<close> on; \<open>reconcile'\<close> is \<open>reconcile\<close> into
  \<open>parentDomForChildren\<close>. The loop state is the map, the used old children and the new
  children so far.
\<close>

fun childLoop ::
  "(nat option \<Rightarrow> vnode option \<Rightarrow> string \<Rightarrow> nat option M) \<Rightarrow> nat \<Rightarrow> nat \<Rightarrow> string
   \<Rightarrow> vnode option list \<Rightarrow> nat list \<Rightarrow> nat \<Rightarrow> vnode option list
   \<Rightarrow> (keyv \<times> nat) list \<times> nat list \<times> nat list
   \<Rightarrow> ((keyv \<times> nat) list \<times> nat list \<times> nat list) M" where
  "childLoop reconcile' n parentDom parentPath children oldChildren i [] st = returnM st"
| "childLoop reconcile' n parentDom parentPath children oldChildren i (None # rest) st =
     childLoop reconcile' n parentDom parentPath children oldChildren (i + 1) rest st"
| "childLoop reconcile' n parentDom parentPath children oldChildren i (Some child # rest) st =
     (let childPath = createChildPath parentPath (vkey child) i (Some (vtype child)) (Some children);
          sel = selectOldChild child i oldChildren (fst st) (fst (snd st));
          oldChild = fst sel
      in bindM (reconcile' oldChild (Some child) childPath) (\<lambda>newChild.
           case newChild of
             None \<Rightarrow>
               childLoop reconcile' n parentDom parentPath children oldChildren (i + 1) rest
                 (fst (snd sel), snd (snd sel), snd (snd st))
           | Some nc \<Rightarrow>
               bindM (if oldChild = None \<or> newChild \<noteq> oldChild \<or> oldChild \<noteq> child_at oldChildren i
                      then bindM (getFirstDomFromChildren n (drop (i + 1) oldChildren))
                             (\<lambda>anchor. insertInstance n parentDom nc anchor)
                      else returnM ())
                 (\<lambda>u. childLoop reconcile' n parentDom parentPath children oldChildren (i + 1) rest
                        (fst (snd sel), snd (snd sel), snd (snd st) @ [nc]))))"

text \<open>
  \<open>reconcile\<close>, \<open>mount\<close>, \<open>update\<close> and \<open>reconcileChildren\<close> call one another. Each body is
  written over the functions it calls (primed); the bodies are tied together below.
\<close>

definition reconcile_body ::
  "(nat \<Rightarrow> unit M) \<Rightarrow> (nat \<Rightarrow> vnode \<Rightarrow> string \<Rightarrow> nat M) \<Rightarrow> (nat \<Rightarrow> nat \<Rightarrow> vnode \<Rightarrow> string \<Rightarrow> nat M)
   \<Rightarrow> nat \<Rightarrow> nat option \<Rightarrow> vnode option \<Rightarrow> string \<Rightarrow> nat option M" where
  "reconcile_body unmount' mount' update' parentDom instance' node path =
     (case node of
        None \<Rightarrow>
          (case instance' of
             Some i \<Rightarrow> bindM (unmount' i) (\<lambda>u. returnM None)
           | None \<Rightarrow> returnM None)
      | Some nd \<Rightarrow>
          (case instance' of
             None \<Rightarrow> bindM (mount' parentDom nd path) (\<lambda>j. returnM (Some j))
           | Some i \<Rightarrow>
               bindM (get_inst i) (\<lambda>I.
                 if vtype (i_node I) \<noteq> vtype nd \<or> \<not> key_strict_eq (vkey (i_node I)) (vkey nd)
                 then bindM (unmount' i) (\<lambda>u.
                      bindM (mount' parentDom nd path) (\<lambda>j. returnM (Some j)))
                 else bindM (update' parentDom i nd path) (\<lambda>j. returnM (Some j)))))"

text \<open>The host representation of a new Instance: its kind and its host node.\<close>

definition create_host :: "vnode \<Rightarrow> (inst_kind \<times> nat option) M" where
  "create_host node =
     (if vtype node = TEXT_ELEMENT then
        bindM (createTextNode (case nodeValue node of Some t \<Rightarrow> t | None \<Rightarrow> []))
          (\<lambda>d. returnM (TEXT, Some d))
      else if vtype node = Fragment then returnM (FRAGMENT, None)
      else (case vtype node of
              TFunction f nm \<Rightarrow> returnM (COMPONENT, None)
            | TString tag \<Rightarrow>
                bindM (createElement tag) (\<lambda>d.
                bindM (liftM (setDomProps d (vattrs node))) (\<lambda>u. returnM (HOST, Some d)))
            | TSymbol i d \<Rightarrow> throwM TypeError))"

definition mount_body ::
  "(nat \<Rightarrow> nat \<Rightarrow> vnode option list \<Rightarrow> string \<Rightarrow> unit M) \<Rightarrow> nat \<Rightarrow> vnode \<Rightarrow> string \<Rightarrow> nat M" where
  "mount_body reconcileChildren' parentDom node path =
     bindM (create_host node) (\<lambda>kd.
     bindM (new_instance \<lparr>i_kind = fst kd, i_dom = snd kd, i_node = node, i_children = [],
                          i_key = vkey node, i_path = path\<rparr>) (\<lambda>instance'.
     bindM (reconcileChildren' parentDom instance' (vchildren node) path) (\<lambda>u.
     returnM instance')))"

text \<open>The text and prop patch of \<open>update\<close> on the host node of the Instance.\<close>

definition set_nodeValue :: "nat \<Rightarrow> string \<Rightarrow> engine \<Rightarrow> engine" where
  "set_nodeValue d newNodeValue s =
     (case map_of (dom_nodes s) d of
        None \<Rightarrow> s
      | Some textNode \<Rightarrow>
          (if d_text textNode \<noteq> newNodeValue
           then s\<lparr>dom_nodes := AList.update d (textNode\<lparr>d_text := newNodeValue\<rparr>) (dom_nodes s)\<rparr>
           else s))"

definition patch_host :: "inst \<Rightarrow> vnode \<Rightarrow> engine \<Rightarrow> engine" where
  "patch_host I node =
     (case (i_kind I, i_dom I) of
        (TEXT, Some d) \<Rightarrow> set_nodeValue d (case nodeValue node of Some t \<Rightarrow> t | None \<Rightarrow> [])
      | (HOST, Some d) \<Rightarrow> updateDomProps d (vattrs (i_node I)) (vattrs node)
      | _ \<Rightarrow> (\<lambda>s. s))"

definition update_body ::
  "(nat \<Rightarrow> nat \<Rightarrow> vnode option list \<Rightarrow> string \<Rightarrow> unit M) \<Rightarrow> nat \<Rightarrow> nat \<Rightarrow> vnode \<Rightarrow> string \<Rightarrow> nat M" where
  "update_body reconcileChildren' parentDom instance' node path =
     bindM (get_inst instance') (\<lambda>I.
     bindM (liftM (put_inst instance' (I\<lparr>i_node := node, i_path := path\<rparr>))) (\<lambda>u.
     bindM (liftM (patch_host I node)) (\<lambda>u.
     bindM (reconcileChildren' parentDom instance' (vchildren node) path) (\<lambda>u.
     returnM instance'))))"

text \<open>The branch of \<open>reconcileChildren\<close> for a component Instance.\<close>

definition enter_component :: "string \<Rightarrow> engine \<Rightarrow> engine" where
  "enter_component parentPath s =
     s\<lparr>hooks_componentStack := hooks_componentStack s @ [parentPath],
       hooks_visited := set_add parentPath (hooks_visited s),
       hooks_cursor := AList.update parentPath 0 (hooks_cursor s)\<rparr>"

definition leave_component :: "engine \<Rightarrow> engine" where
  "leave_component s = s\<lparr>hooks_componentStack := butlast (hooks_componentStack s)\<rparr>"

definition call_component :: "components \<Rightarrow> vnode \<Rightarrow> vnode option M" where
  "call_component ce node =
     (case vtype node of
        TFunction f nm \<Rightarrow> run_comp (ce f (vattrs node) (vchildren node))
      | _ \<Rightarrow> throwM TypeError)"

definition reconcileComponent ::
  "(nat \<Rightarrow> nat option \<Rightarrow> vnode option \<Rightarrow> string \<Rightarrow> nat option M) \<Rightarrow> nat \<Rightarrow> components
   \<Rightarrow> nat \<Rightarrow> nat \<Rightarrow> inst \<Rightarrow> string \<Rightarrow> unit M" where
  "reconcileComponent reconcile' n ce parentDom instance' I parentPath =
     bindM (liftM (enter_component parentPath)) (\<lambda>u.
     bindM (call_component ce (i_node I)) (\<lambda>componentNode.
     bindM (reconcile' parentDom (child_at (i_children I) 0) componentNode
              (createChildPath parentPath None 0 (map_option vtype componentNode)
                 (Some [componentNode]))) (\<lambda>childInstance.
     bindM (case childInstance of
              None \<Rightarrow> returnM []
            | Some ci \<Rightarrow>
                bindM (if child_at (i_children I) 0 = None \<or> childInstance \<noteq> child_at (i_children I) 0
                       then insertInstance n parentDom ci None
                       else returnM ())
                  (\<lambda>u. returnM [ci])) (\<lambda>newChildren.
     bindM (liftM leave_component) (\<lambda>u.
     set_children instance' newChildren)))))"

definition reconcileChildren_body ::
  "(nat \<Rightarrow> nat option \<Rightarrow> vnode option \<Rightarrow> string \<Rightarrow> nat option M) \<Rightarrow> (nat \<Rightarrow> unit M) \<Rightarrow> nat \<Rightarrow> components
   \<Rightarrow> nat \<Rightarrow> nat \<Rightarrow> vnode option list \<Rightarrow> string \<Rightarrow> unit M" where
  "reconcileChildren_body reconcile' unmount' n ce parentDom instance' children parentPath =
     bindM (get_inst instance') (\<lambda>I.
       if i_kind I = COMPONENT then reconcileComponent reconcile' n ce parentDom instance' I parentPath
       else
         bindM (if i_kind I = HOST
                then (case i_dom I of Some d \<Rightarrow> returnM d | None \<Rightarrow> throwM TypeError)
                else returnM parentDom) (\<lambda>parentDomForChildren.
         bindM (buildKeyMap (i_children I) []) (\<lambda>oldChildrenByKey.
         bindM (childLoop (reconcile' parentDomForChildren)
                  n parentDomForChildren parentPath children (i_children I) 0 children
                  (oldChildrenByKey, [], [])) (\<lambda>st.
         bindM (forM (filter (\<lambda>oldChild. oldChild \<notin> set (fst (snd st))) (i_children I)) unmount') (\<lambda>us.
         set_children instance' (snd (snd st)))))))"

text \<open>
  The first argument is the depth of calls left: \<open>OutOfFuel\<close> is the stack overflow of a
  component tree that does not end.
\<close>

fun reconcile :: "nat \<Rightarrow> components \<Rightarrow> nat \<Rightarrow> nat option \<Rightarrow> vnode option \<Rightarrow> string \<Rightarrow> nat option M"
  and mount :: "nat \<Rightarrow> components \<Rightarrow> nat \<Rightarrow> vnode \<Rightarrow> string \<Rightarrow> nat M"
  and update :: "nat \<Rightarrow> components \<Rightarrow> nat \<Rightarrow> nat \<Rightarrow> vnode \<Rightarrow> string \<Rightarrow> nat M"
  and reconcileChildren :: "nat \<Rightarrow> components \<Rightarrow> nat \<Rightarrow> nat \<Rightarrow> vnode option list \<Rightarrow> string \<Rightarrow> unit M"
where
  "reconcile 0 ce = (\<lambda>parentDom instance' node path. throwM OutOfFuel)"
| "reconcile (Suc n) ce = reconcile_body (unmount n) (mount n ce) (update n ce)"
| "mount 0 ce = (\<lambda>parentDom node path. throwM OutOfFuel)"
| "mount (Suc n) ce = mount_body (reconcileChildren n ce)"
| "update 0 ce = (\<lambda>parentDom instance' node path. throwM OutOfFuel)"
| "update (Suc n) ce = update_body (reconcileChildren n ce)"
| "reconcileChildren 0 ce = (\<lambda>parentDom instance' children parentPath. throwM OutOfFuel)"
| "reconcileChildren (Suc n) ce = reconcileChildren_body (reconcile n ce) (unmount n) n ce"

section \<open>The render pass (render.ts, setup.ts)\<close>

text \<open>
  The end of \<open>render\<close>: the effect queue is copied and cleared, and the flush of the copy
  is enqueued when it is not empty.
\<close>

definition scheduleEffects :: "engine \<Rightarrow> engine" where
  "scheduleEffects s =
     (let effectsToRun = effects_queue s;
          s1 = s\<lparr>effects_queue := []\<rparr>
      in if effectsToRun \<noteq> [] then enqueue (FlushTask effectsToRun) s1 else s1)"

text \<open>
  The root Instance is inserted into the container when its first host node has no parent.
\<close>

definition attachRoot :: "nat \<Rightarrow> nat \<Rightarrow> nat option \<Rightarrow> unit M" where
  "attachRoot n container instance' =
     (case instance' of
        None \<Rightarrow> returnM ()
      | Some i \<Rightarrow>
          bindM (getFirstDom n i) (\<lambda>firstDom.
            case firstDom of
              None \<Rightarrow> returnM ()
            | Some d \<Rightarrow>
                (\<lambda>s. if parentNode s d = None then insertInstance n container i None s
                     else (Inr (), s))))"

definition render :: "nat \<Rightarrow> components \<Rightarrow> unit M" where
  "render n ce s =
     (case (root_container s, root_node s) of
        (Some container, Some node) \<Rightarrow>
          bindM (liftM (\<lambda>s. s\<lparr>hooks_visited := []\<rparr>)) (\<lambda>u.
          bindM (\<lambda>s. reconcile n ce container (root_instance s) (Some node) ''0'' s) (\<lambda>r.
          bindM (liftM (\<lambda>s. s\<lparr>root_instance := r\<rparr>)) (\<lambda>u.
          bindM (attachRoot n container r) (\<lambda>u.
          bindM (liftM cleanupUnusedHooks) (\<lambda>u.
          liftM scheduleEffects))))) s
      | _ \<Rightarrow> (Inr (), s))"

text \<open>
  The flush of one queued effect. An effect function is code of the application: its call
  is recorded, and \<open>er\<close> gives the cleanup function it returns, if any.
\<close>

definition runEffect :: "(nat \<Rightarrow> nat option) \<Rightarrow> string \<times> nat \<Rightarrow> engine \<Rightarrow> engine" where
  "runEffect er pc s =
     (case map_of (hooks_state s) (fst pc) of
        None \<Rightarrow> s
      | Some hooks \<Rightarrow>
          (if snd pc \<ge> length hooks then s
           else
             (case hooks ! snd pc of
                VEffect d c e \<Rightarrow>
                  s\<lparr>trace := trace s
                       @ (case c of Some cl \<Rightarrow> [CallCleanup (fst pc) (snd pc) cl] | None \<Rightarrow> [])
                       @ [CallEffect (fst pc) (snd pc) e],
                    hooks_state := AList.update (fst pc) (hooks[snd pc := VEffect d (er e) e]) (hooks_state s)\<rparr>
              | _ \<Rightarrow> s)))"

text \<open>
  Running a microtask: the closure of \<open>withEnqueue\<close> clears the latch, then calls
  \<open>render\<close>; the flush runs the effects of its snapshot.
\<close>

definition runTask :: "nat \<Rightarrow> components \<Rightarrow> (nat \<Rightarrow> nat option) \<Rightarrow> task \<Rightarrow> unit M" where
  "runTask n ce er t =
     (case t of
        RenderTask \<Rightarrow> (\<lambda>s. render n ce (s\<lparr>scheduled := False\<rparr>))
      | FlushTask effectsToRun \<Rightarrow> liftM (fold (runEffect er) effectsToRun))"

definition runMicrotask :: "nat \<Rightarrow> components \<Rightarrow> (nat \<Rightarrow> nat option) \<Rightarrow> unit M" where
  "runMicrotask n ce er s =
     (case microtasks s of
        [] \<Rightarrow> (Inr (), s)
      | t # ts \<Rightarrow> runTask n ce er t (s\<lparr>microtasks := ts\<rparr>))"

text \<open>\<open>setup(rootNode, container)\<close>.\<close>

definition setup_root :: "nat \<Rightarrow> components \<Rightarrow> vnode option \<Rightarrow> nat option \<Rightarrow> unit M" where
  "setup_root n ce rootNode container =
     (case container of
        None \<Rightarrow> throwM SetupError
      | Some c \<Rightarrow>
          (case rootNode of
             None \<Rightarrow> throwM SetupError
           | Some node \<Rightarrow>
               bindM (\<lambda>s. case root_instance s of
                             Some i \<Rightarrow> removeInstance n i s
                           | None \<Rightarrow> (Inr (), s)) (\<lambda>u.
               bindM (liftM (\<lambda>s. fold removeChild (childNodes s c) s)) (\<lambda>u.
               bindM (liftM (\<lambda>s. s\<lparr>root_container := Some c, root_node := Some node,
                                    root_instance := None,
                                    hooks_state := [], hooks_cursor := [], hooks_visited := [],
                                    hooks_componentStack := []\<rparr>)) (\<lambda>u.
               bindM (liftM cleanupUnusedHooks) (\<lambda>u.
               render n ce))))))"

section \<open>Example states and trees\<close>

text \<open>An engine that has rendered nothing, with one empty host element (address 0).\<close>

definition engine0 :: engine where
  "engine0 =
     \<lparr>root_container = None, root_node = None, root_instance = None,
      hooks_state = [], hooks_cursor = [], hooks_visited = [], hooks_componentStack = [],
      effects_queue = [], scheduled = False, microtasks = [],
      instances = [], next_instance = 0,
      dom_nodes = [(0, \<lparr>d_tag = Some ''div'', d_text = [], d_parent = None, d_childNodes = []\<rparr>)],
      next_dom = 1, trace = []\<rparr>"

definition li :: "keyv option \<Rightarrow> vnode" where
  "li k = VNode (TString ''li'') k None [] []"

definition ul :: "vnode list \<Rightarrow> vnode" where
  "ul cs = VNode (TString ''ul'') None None [] (map Some cs)"

text \<open>No component functions.\<close>

definition no_components :: components where
  "no_components f props children = Return None"

section \<open>Callers of the setters\<close>

text \<open>
  A handler that calls one setter several times in a row, with no microtask between the
  calls.
\<close>

fun setStates :: "string \<Rightarrow> nat \<Rightarrow> setarg list \<Rightarrow> unit M" where
  "setStates path cursor [] = returnM ()"
| "setStates path cursor (a # as) = bindM (setState path cursor a) (\<lambda>u. setStates path cursor as)"

text \<open>Every call of the row changes the value it finds.\<close>

fun changing :: "jsval \<Rightarrow> setarg list \<Rightarrow> bool" where
  "changing v [] = True"
| "changing v (a # as) = (\<not> Object_is v (newState a v) \<and> changing (newState a v) as)"

fun final_state :: "jsval \<Rightarrow> setarg list \<Rightarrow> jsval" where
  "final_state v [] = v"
| "final_state v (a # as) = final_state (newState a v) as"

text \<open>A \<open>span\<close> and a \<open>div\<close> with the key \<open>"a"\<close>, and the engine after the \<open>span\<close> is rendered.\<close>

definition span_a :: "(string \<times> jsval) list \<Rightarrow> vnode" where
  "span_a props = VNode (TString ''span'') (Some (KStr ''a'')) None props []"

definition div_a :: vnode where
  "div_a = VNode (TString ''div'') (Some (KStr ''a'')) None [] []"

definition span_rendered :: engine where
  "span_rendered = snd (setup_root 5 no_components (Some (span_a [])) (Some 0) engine0)"

text \<open>
  Reconciling one tree and then another at the root path, under the host element 0 of an
  engine that has rendered nothing.
\<close>

definition reconcile_twice :: "nat \<Rightarrow> components \<Rightarrow> vnode \<Rightarrow> vnode \<Rightarrow> nat option M" where
  "reconcile_twice n ce tree1 tree2 =
     bindM (reconcile n ce 0 None (Some tree1) ''0'') (\<lambda>i.
       reconcile n ce 0 i (Some tree2) ''0'')"

text \<open>
  An application of two components. \<open>App\<close> (function 0) keeps a flag and returns a
  \<open>Child\<close> element while the flag is \<open>true\<close>, else \<open>null\<close>. \<open>Child\<close> (function 1) keeps a
  counter, registers the effect 7 with the deps \<open>[]\<close> and returns a \<open>p\<close> element.
\<close>

definition Child :: vnode where
  "Child = VNode (TFunction 1 ''Child'') None None [] []"

definition App :: vnode where
  "App = VNode (TFunction 0 ''App'') None None [] []"

definition app_components :: components where
  "app_components f props children =
     (if f = 0
      then UseState (InitValue (VBool True))
             (\<lambda>flag. Return (if flag = VBool True then Some Child else None))
      else UseState (InitValue (VNum 5))
             (\<lambda>count. UseEffect 7 (Some []) (Return (Some (VNode (TString ''p'') None None [] [])))))"

text \<open>The effect 7 returns the cleanup 9.\<close>

definition app_effects :: "nat \<Rightarrow> nat option" where
  "app_effects e = (if e = 7 then Some 9 else None)"

text \<open>
  The application is set up and its effects are flushed; then the setter of \<open>App\<close> is
  called with \<open>false\<close> and the render it requests runs, which unmounts \<open>Child\<close>.
\<close>

definition app_mounted :: engine where
  "app_mounted =
     snd (bindM (setup_root 9 app_components (Some App) (Some 0)) (\<lambda>u.
          runMicrotask 9 app_components app_effects) engine0)"

definition child_unmounted :: engine where
  "child_unmounted =
     snd (bindM (setState ''0'' 0 (NextValue (VBool False))) (\<lambda>u.
          runMicrotask 9 app_components app_effects) app_mounted)"

text \<open>An engine whose root is set to \<open>App\<close> in the host element 0, before its first render.\<close>

definition app_ready :: engine where
  "app_ready = engine0\<lparr>root_container := Some 0, root_node := Some App\<rparr>"

text \<open>
  The application after the setter of \<open>App\<close> was called with \<open>false\<close>, as the render task
  finds it: taken off the queue, with the latch cleared.
\<close>

definition app_flag_off :: engine where
  "app_flag_off =
     (snd (setState ''0'' 0 (NextValue (VBool False)) app_mounted))
       \<lparr>microtasks := [], scheduled := False\<rparr>"

section \<open>Vocabulary of the proofs\<close>

text \<open>\<open>frame R m\<close>: whatever \<open>m\<close> returns or throws, \<open>R\<close> relates the state before to the state after.\<close>

definition frame :: "(engine \<Rightarrow> engine \<Rightarrow> bool) \<Rightarrow> 'a M \<Rightarrow> bool" where
  "frame R m = (\<forall>s r s'. m s = (r, s') \<longrightarrow> R s s')"

definition preorder :: "(engine \<Rightarrow> engine \<Rightarrow> bool) \<Rightarrow> bool" where
  "preorder R = (reflp R \<and> transp R)"

text \<open>
  \<open>prim_frame R\<close>: \<open>R\<close> is reflexive and transitive and holds across every step by which
  the reconciler changes the state: the DOM calls, a new Instance, the assignments to
  \<open>instance.node\<close>, \<open>instance.path\<close> and \<open>instance.children\<close> of a stored Instance, entering
  and leaving a component, and the two hooks.
\<close>

definition prim_frame :: "(engine \<Rightarrow> engine \<Rightarrow> bool) \<Rightarrow> bool" where
  "prim_frame R =
     (preorder R
    \<and> (\<forall>tag. frame R (createElement tag))
    \<and> (\<forall>text. frame R (createTextNode text))
    \<and> (\<forall>d props s. R s (setDomProps d props s))
    \<and> (\<forall>I. frame R (new_instance I))
    \<and> (\<forall>s i I nd p. map_of (instances s) i = Some I \<longrightarrow> R s (put_inst i (I\<lparr>i_node := nd, i_path := p\<rparr>) s))
    \<and> (\<forall>I nd s. R s (patch_host I nd s))
    \<and> (\<forall>s i I cs. map_of (instances s) i = Some I \<longrightarrow> R s (put_inst i (I\<lparr>i_children := cs\<rparr>) s))
    \<and> (\<forall>p s. R s (enter_component p s))
    \<and> (\<forall>s. R s (leave_component s))
    \<and> (\<forall>i. frame R (useState i))
    \<and> (\<forall>e d. frame R (useEffect e d))
    \<and> (\<forall>d s. R s (removeChild d s))
    \<and> (\<forall>p d s. R s (appendChild p d s))
    \<and> (\<forall>p d a. frame R (insertBefore p d a)))"

text \<open>The addresses of the Instance store lie below the counter of new Instances.\<close>

definition store_ok :: "engine \<Rightarrow> bool" where
  "store_ok s = list_all (\<lambda>j. j < next_instance s) (map fst (instances s))"

text \<open>A call of application code: a cleanup or an effect function.\<close>

fun is_call :: "event \<Rightarrow> bool" where
  "is_call (CallCleanup p i c) = True"
| "is_call (CallEffect p i e) = True"
| "is_call e = False"

text \<open>A call of an effect function.\<close>

fun is_effect :: "event \<Rightarrow> bool" where
  "is_effect (CallEffect p i e) = True"
| "is_effect e = False"

text \<open>A prop patch of a host node.\<close>

fun is_patch :: "event \<Rightarrow> bool" where
  "is_patch (UpdateDomProps d p q) = True"
| "is_patch e = False"

text \<open>
  The root, the latch and the microtask queue are as before; the record of outside calls
  has grown by DOM calls only; the effect queue has only grown.
\<close>

definition control_kept :: "engine \<Rightarrow> engine \<Rightarrow> bool" where
  "control_kept s s' =
     (root_container s' = root_container s \<and> root_node s' = root_node s
    \<and> root_instance s' = root_instance s
    \<and> scheduled s' = scheduled s \<and> microtasks s' = microtasks s
    \<and> (\<exists>t. trace s' = trace s @ t \<and> \<not> list_ex is_call t)
    \<and> (\<exists>q. effects_queue s' = effects_queue s @ q))"

text \<open>
  Every stored Instance is still stored, with the kind, the host node and the key it had
  (in a store whose addresses lie below the counter).
\<close>

definition insts_kept :: "engine \<Rightarrow> engine \<Rightarrow> bool" where
  "insts_kept s s' =
     (store_ok s \<longrightarrow>
        store_ok s' \<and> next_instance s \<le> next_instance s'
      \<and> (\<forall>j J. map_of (instances s) j = Some J \<longrightarrow>
             (\<exists>J'. map_of (instances s') j = Some J' \<and> i_kind J' = i_kind J
                  \<and> i_dom J' = i_dom J \<and> i_key J' = i_key J)))"

text \<open>
  With the component stack among the visited paths: it stays so, the visited paths only
  grow, and the hooks and the cursor of a path that is not visited at the end are as
  before; the stored paths stay distinct.
\<close>

definition hooks_kept :: "engine \<Rightarrow> engine \<Rightarrow> bool" where
  "hooks_kept s s' =
     (set (hooks_componentStack s) \<subseteq> set (hooks_visited s) \<longrightarrow>
        set (hooks_componentStack s') \<subseteq> set (hooks_visited s')
      \<and> set (hooks_visited s) \<subseteq> set (hooks_visited s')
      \<and> (\<forall>p. p \<notin> set (hooks_visited s') \<longrightarrow>
             map_of (hooks_state s') p = map_of (hooks_state s) p)
      \<and> (distinct (map fst (hooks_state s)) \<longrightarrow> distinct (map fst (hooks_state s'))))"

text \<open>Only the host tree has changed.\<close>

definition dom_change :: "engine \<Rightarrow> engine \<Rightarrow> bool" where
  "dom_change s s' = (\<exists>dn nd. s' = s\<lparr>dom_nodes := dn, next_dom := nd\<rparr>)"

text \<open>
  What a hook may change: the hooks of the path on top of the component stack, the
  cursors, and the effect queue by appending to it.
\<close>

definition hook_change :: "engine \<Rightarrow> engine \<Rightarrow> bool" where
  "hook_change s s' =
     (s'\<lparr>hooks_state := hooks_state s, hooks_cursor := hooks_cursor s,
         effects_queue := effects_queue s\<rparr> = s
    \<and> (\<exists>q. effects_queue s' = effects_queue s @ q)
    \<and> (hooks_state s' = hooks_state s
       \<or> (hooks_componentStack s \<noteq> []
          \<and> (\<exists>hs. hooks_state s' = AList.update (last (hooks_componentStack s)) hs (hooks_state s)))))"

text \<open>
  The Instances at the addresses below \<open>b\<close> are as before, and no host node was patched
  (in a store whose counter has passed \<open>b\<close>).
\<close>

definition fresh_kept :: "nat \<Rightarrow> engine \<Rightarrow> engine \<Rightarrow> bool" where
  "fresh_kept b s s' =
     (b \<le> next_instance s \<longrightarrow>
        b \<le> next_instance s'
      \<and> (\<forall>j<b. map_of (instances s') j = map_of (instances s) j)
      \<and> (\<exists>t. trace s' = trace s @ t \<and> \<not> list_ex is_patch t))"

text \<open>
  The root, the latch, the microtask queue and the effect queue are as before, and no effect
  function has been called.
\<close>

definition gc_change :: "engine \<Rightarrow> engine \<Rightarrow> bool" where
  "gc_change s s' =
     (root_container s' = root_container s \<and> root_node s' = root_node s
    \<and> root_instance s' = root_instance s \<and> scheduled s' = scheduled s
    \<and> microtasks s' = microtasks s \<and> effects_queue s' = effects_queue s
    \<and> (\<exists>t. trace s' = trace s @ t \<and> \<not> list_ex is_effect t))"


section \<open>Properties of identity addressing\<close>

lemma decimal_digit: "n < 10 \<Longrightarrow> decimal n = [digit_char n]"
  by (simp add: decimal.simps)

lemma typeIndex_card:
  "typeIndex sibs t idx =
     card {i. i < idx \<and> i < length sibs \<and> (\<exists>n. sibs ! i = Some n \<and> vtype n = t)}"
proof -
  have "{i. i < length [0..<idx] \<and> sibling_type sibs ([0..<idx] ! i) = Some t}
      = {i. i < idx \<and> i < length sibs \<and> (\<exists>n. sibs ! i = Some n \<and> vtype n = t)}"
    by (auto simp: sibling_type_def split: if_splits)
  then show ?thesis
    unfolding typeIndex_def length_filter_conv_card by simp
qed

text \<open>
  Claim C3, as the code has it. A child with a key gets the parent path, \<open>.k\<close> and the key. A keyless child
  whose type is given (and truthy) together with its siblings gets
  the parent path, \<open>.c\<close>, the type name, \<open>_\<close> and an ordinal, where the ordinal
  counts every sibling of the same type before it, keyed or not. Without a type or
  without siblings the path is the parent path, \<open>.i\<close> and the index.
\<close>

theorem createChildPath_rule:
  "createChildPath pp (Some k) idx ty sibs = pp @ ''.k'' @ String_key k
   \<and> (truthy_type t \<longrightarrow>
        createChildPath pp None idx (Some t) (Some ss) =
          pp @ ''.c'' @ typeName t @ ''_'' @
          decimal (card {i. i < idx \<and> i < length ss \<and> (\<exists>n. ss ! i = Some n \<and> vtype n = t)}))
   \<and> ((ty = None \<or> sibs = None \<or> (\<exists>u. ty = Some u \<and> \<not> truthy_type u)) \<longrightarrow>
        createChildPath pp None idx ty sibs = pp @ ''.i'' @ decimal idx)"
  by (auto simp: createChildPath_def typeIndex_card split: option.splits)

theorem createChildPath_rule_witness:
  "createChildPath ''0'' (Some (KNum 7)) 1 None None = ''0.k7''
   \<and> truthy_type (TString ''li'')
   \<and> createChildPath ''0'' None 1 (Some (TString ''li''))
       (Some [Some (VNode (TString ''li'') (Some (KStr ''a'')) None [] []),
              Some (VNode (TString ''li'') None None [] [])]) = ''0.cli_1''
   \<and> createChildPath ''0'' None 1 None None = ''0.i1''"
  using createChildPath_rule [of "''0''" "KNum 7" 1 None None "TString ''li''"
      "[Some (VNode (TString ''li'') (Some (KStr ''a'')) None [] []),
        Some (VNode (TString ''li'') None None [] [])]"]
  by (simp add: createChildPath_def typeIndex_def sibling_type_def String_number_def
      decimal_digit digit_char_def upt_rec)

text \<open>
  Claim C3 as the specification words it fails: after a keyed \<open>li\<close>, a keyless \<open>li\<close> has no
  keyless sibling of its type before it, yet its ordinal is 1.
\<close>

theorem createChildPath_keyless_counterexample:
  "createChildPath ''0'' None 1 (Some (TString ''li''))
     (Some [Some (VNode (TString ''li'') (Some (KStr ''a'')) None [] []),
            Some (VNode (TString ''li'') None None [] [])])
   \<noteq> ''0'' @ ''.c'' @ ''li'' @ ''_'' @
     decimal (keyless_ordinal
       [Some (VNode (TString ''li'') (Some (KStr ''a'')) None [] []),
        Some (VNode (TString ''li'') None None [] [])] (TString ''li'') 1)"
  by (simp add: createChildPath_def typeIndex_def keyless_ordinal_def sibling_type_def
      decimal_digit digit_char_def upt_rec)

section \<open>Properties of the hook state system\<close>

lemma map_of_update_if: "map_of (AList.update k v al) k' = (if k' = k then Some v else map_of al k')"
  by (simp add: update_conv')

lemma map_of_delete_if: "map_of (AList.delete k al) k' = (if k' = k then None else map_of al k')"
  by (simp add: delete_conv')

lemma array_get_set_same: "array_get (array_set xs i v) i = v"
  by (simp add: array_get_def array_set_def nth_append)

lemma array_get_set_other:
  "j \<noteq> i \<Longrightarrow> j < length xs \<Longrightarrow> array_get (array_set xs i v) j = array_get xs j"
  by (simp add: array_get_def array_set_def nth_append)

lemma shallowEquals_iff:
  "shallowEquals pd d \<longleftrightarrow>
     (\<exists>a. pd = Some a \<and> length a = length d \<and> (\<forall>k<length d. Object_is (a ! k) (d ! k)))"
  by (cases pd) (auto simp: list_all2_conv_all_nth)

lemma cleanupHooks_count:
  "count_list (fst (cleanupHooks p i hs)) (CallCleanup q j c) =
     (if q = p \<and> i \<le> j \<and> j - i < length hs \<and> (\<exists>d e. hs ! (j - i) = VEffect d (Some c) e)
      then 1 else 0)"
proof (induction p i hs rule: cleanupHooks.induct)
  case (1 path i)
  then show ?case by simp
next
  case (2 path i d c' e hooks)
  then show ?case
    by (cases "j = i") (auto split: prod.splits simp: nth_Cons' Suc_diff_le)
qed (auto split: prod.splits simp: nth_Cons' Suc_diff_le)

lemma cleanupHooks_again: "fst (cleanupHooks p i (snd (cleanupHooks p i hs))) = []"
  by (induction p i hs rule: cleanupHooks.induct) (auto split: prod.splits)


lemma cleanupPath_fields:
  "hooks_state (cleanupPath p s) = AList.delete p (hooks_state s)"
  "hooks_cursor (cleanupPath p s) = AList.delete p (hooks_cursor s)"
  "hooks_visited (cleanupPath p s) = hooks_visited s"
  "trace (cleanupPath p s) =
     trace s @ (case map_of (hooks_state s) p of None \<Rightarrow> [] | Some hs \<Rightarrow> fst (cleanupHooks p 0 hs))"
  by (auto simp: cleanupPath_def Let_def delete_update_same split: option.splits prod.splits)

lemma fold_cleanupPath_state:
  "map_of (hooks_state (fold cleanupPath ps s)) q =
     (if q \<in> set ps then None else map_of (hooks_state s) q)"
  by (induction ps arbitrary: s) (auto simp: cleanupPath_fields map_of_delete_if)

lemma fold_cleanupPath_cursor:
  "map_of (hooks_cursor (fold cleanupPath ps s)) q =
     (if q \<in> set ps then None else map_of (hooks_cursor s) q)"
  by (induction ps arbitrary: s) (auto simp: cleanupPath_fields map_of_delete_if)

lemma fold_cleanupPath_visited: "hooks_visited (fold cleanupPath ps s) = hooks_visited s"
  by (induction ps arbitrary: s) (auto simp: cleanupPath_fields)

lemma fold_cleanupPath_count:
  "distinct ps \<Longrightarrow>
   count_list (trace (fold cleanupPath ps s)) (CallCleanup q j c) =
     count_list (trace s) (CallCleanup q j c) +
     (if q \<in> set ps \<and> (\<exists>hs. map_of (hooks_state s) q = Some hs \<and> j < length hs
                              \<and> (\<exists>d e. hs ! j = VEffect d (Some c) e)) then 1 else 0)"
proof (induction ps arbitrary: s)
  case Nil
  then show ?case by simp
next
  case (Cons p ps)
  have t: "count_list (trace (cleanupPath p s)) (CallCleanup q j c) =
      count_list (trace s) (CallCleanup q j c) +
      (if q = p \<and> (\<exists>hs. map_of (hooks_state s) q = Some hs \<and> j < length hs
                              \<and> (\<exists>d e. hs ! j = VEffect d (Some c) e)) then 1 else 0)"
    by (auto simp: cleanupPath_fields cleanupHooks_count split: option.splits)
  have m: "\<And>x. map_of (hooks_state (cleanupPath p s)) x = (if x = p then None else map_of (hooks_state s) x)"
    by (simp add: cleanupPath_fields map_of_delete_if)
  from Cons.prems have d: "distinct ps" and np: "p \<notin> set ps" by auto
  show ?case
    using Cons.IH [OF d, of "cleanupPath p s"] np
    by (auto simp: t m)
qed

text \<open>
  Let a stored path be unvisited when \<open>cleanupUnusedHooks\<close> runs (the paths of a
  \<open>Map\<close> are distinct). Afterwards its slot array and its cursor entry are gone; the
  cleanup of each of its effect slots that had one was called exactly once more than before
  and no other cleanup of the path was called; the hooks are left with no cleanup to call
  again; and a component that is rendered at that path next gets the initial value of
  its first state hook, at cursor 0.
\<close>

lemma cleanupUnusedHooks_collects:
  assumes "distinct (map fst (hooks_state s))"
    and "map_of (hooks_state s) p = Some hs"
    and "p \<notin> set (hooks_visited s)"
  shows "map_of (hooks_state (cleanupUnusedHooks s)) p = None
       \<and> map_of (hooks_cursor (cleanupUnusedHooks s)) p = None
       \<and> (\<forall>i c. count_list (trace (cleanupUnusedHooks s)) (CallCleanup p i c) =
                  count_list (trace s) (CallCleanup p i c) +
                  (if i < length hs \<and> (\<exists>d e. hs ! i = VEffect d (Some c) e) then 1 else 0))
       \<and> fst (cleanupHooks p 0 (snd (cleanupHooks p 0 hs))) = []
       \<and> fst (useState initialValue (enter_component p (cleanupUnusedHooks s)))
           = Inr (initialState initialValue, p, 0)"
proof -
  let ?ps = "filter (\<lambda>path. path \<notin> set (hooks_visited s)) (map fst (hooks_state s))"
  have din: "distinct ?ps" using assms(1) by simp
  have pin: "p \<in> set ?ps" using assms(2,3) by (auto dest: map_of_SomeD simp: rev_image_eqI)
  have c: "cleanupUnusedHooks s = fold cleanupPath ?ps s"
    by (simp add: cleanupUnusedHooks_def)
  have a: "map_of (hooks_state (cleanupUnusedHooks s)) p = None"
    using pin unfolding c by (simp only: fold_cleanupPath_state if_True)
  have b: "map_of (hooks_cursor (cleanupUnusedHooks s)) p = None"
    using pin unfolding c by (simp only: fold_cleanupPath_cursor if_True)
  have k: "\<forall>i c. count_list (trace (cleanupUnusedHooks s)) (CallCleanup p i c) =
                  count_list (trace s) (CallCleanup p i c) +
                  (if i < length hs \<and> (\<exists>d e. hs ! i = VEffect d (Some c) e) then 1 else 0)"
    unfolding c using pin assms(2) by (simp add: fold_cleanupPath_count [OF din])
  have u: "fst (useState initialValue (enter_component p (cleanupUnusedHooks s)))
           = Inr (initialState initialValue, p, 0)"
    using a
    by (simp add: useState_def bindM_def currentPath_def currentCursor_def currentHooks_def
        enter_component_def map_of_update_if array_get_def)
  show ?thesis using a b k u cleanupHooks_again by blast
qed

lemma cleanupUnusedHooks_visited:
  assumes "distinct (map fst (hooks_state s))" and "p \<in> set (hooks_visited s)"
  shows "map_of (hooks_state (cleanupUnusedHooks s)) p = map_of (hooks_state s) p
       \<and> count_list (trace (cleanupUnusedHooks s)) (CallCleanup p i c) = count_list (trace s) (CallCleanup p i c)"
  using assms
  by (simp add: cleanupUnusedHooks_def fold_cleanupPath_state fold_cleanupPath_count)



text \<open>
  Claim C9. A setter called on a path whose slots are stored takes the previous value of its
  slot (\<open>undefined\<close> beyond the array), computes the next one (an updater is applied
  to the previous value) and compares the two with \<open>Object.is\<close>. When they are the same
  nothing changes at all. When they differ the slot gets the new value, the other slots and
  paths keep theirs, the render latch is set and the render task is enqueued if it
  was not pending; no other part of the engine state changes.
\<close>

theorem setState_mounted:
  assumes "map_of (hooks_state s) path = Some stateArray"
  shows "(Object_is (array_get stateArray c) (newState a (array_get stateArray c)) \<longrightarrow>
            setState path c a s = (Inr (), s))
       \<and> (\<not> Object_is (array_get stateArray c) (newState a (array_get stateArray c)) \<longrightarrow>
            (\<exists>s'. setState path c a s = (Inr (), s')
               \<and> (\<exists>arr. map_of (hooks_state s') path = Some arr
                     \<and> array_get arr c = newState a (array_get stateArray c)
                     \<and> (\<forall>j. j \<noteq> c \<and> j < length stateArray \<longrightarrow> array_get arr j = array_get stateArray j))
               \<and> (\<forall>p. p \<noteq> path \<longrightarrow> map_of (hooks_state s') p = map_of (hooks_state s) p)
               \<and> scheduled s'
               \<and> microtasks s' = (if scheduled s then microtasks s else microtasks s @ [RenderTask])
               \<and> s'\<lparr>hooks_state := hooks_state s, scheduled := scheduled s,
                     microtasks := microtasks s\<rparr> = s))"
  using assms
  by (auto simp: setState_def Let_def enqueueRender_def enqueue_def map_of_update_if
      array_get_set_same array_get_set_other)


text \<open>
  Two objects with the same fields and different identities differ for \<open>Object.is\<close>: the
  slot is written and a render is requested. The identity updater changes nothing.
\<close>

theorem setState_mounted_witness:
  "map_of (hooks_state (engine0\<lparr>hooks_state := [(''0'', [VObj 1 [(''n'', VNum 3)]])]\<rparr>)) ''0''
     = Some [VObj 1 [(''n'', VNum 3)]]
   \<and> \<not> Object_is (VObj 1 [(''n'', VNum 3)]) (VObj 2 [(''n'', VNum 3)])
   \<and> setState ''0'' 0 (NextValue (VObj 2 [(''n'', VNum 3)]))
        (engine0\<lparr>hooks_state := [(''0'', [VObj 1 [(''n'', VNum 3)]])]\<rparr>)
     = (Inr (), engine0\<lparr>hooks_state := [(''0'', [VObj 2 [(''n'', VNum 3)]])],
                        scheduled := True, microtasks := [RenderTask]\<rparr>)
   \<and> Object_is (VObj 1 [(''n'', VNum 3)]) (newState (Updater (\<lambda>v. v)) (VObj 1 [(''n'', VNum 3)]))
   \<and> setState ''0'' 0 (Updater (\<lambda>v. v)) (engine0\<lparr>hooks_state := [(''0'', [VObj 1 [(''n'', VNum 3)]])]\<rparr>)
     = (Inr (), engine0\<lparr>hooks_state := [(''0'', [VObj 1 [(''n'', VNum 3)]])]\<rparr>)"
  using setState_mounted [of "engine0\<lparr>hooks_state := [(''0'', [VObj 1 [(''n'', VNum 3)]])]\<rparr>"
      "''0''" "[VObj 1 [(''n'', VNum 3)]]" 0 "NextValue (VObj 2 [(''n'', VNum 3)])"]
  by (simp add: setState_def array_get_def array_set_def enqueueRender_def enqueue_def engine0_def)

section \<open>Properties of the child list reconciliation\<close>

text \<open>
  Claim C10. A new child whose key is falsy is matched with the old child at its own index, as
  a keyless child with the same fields is, and the key map is neither read nor changed;
  the keys \<open>0\<close>, \<open>""\<close> and \<open>NaN\<close> are falsy although they are not \<open>null\<close>. Only
  a child with a truthy key is looked up in the map.
\<close>

theorem selectOldChild_rule:
  "(\<not> truthy_key (vkey child) \<longrightarrow>
      selectOldChild child i oldChildren byKey used =
        (case child_at oldChildren i of
           None \<Rightarrow> (None, byKey, used)
         | Some oldChild \<Rightarrow> (Some oldChild, byKey, set_add oldChild used))
    \<and> selectOldChild child i oldChildren byKey used =
        selectOldChild (VNode (vtype child) None (nodeValue child) (vattrs child) (vchildren child))
          i oldChildren byKey used)
   \<and> (vkey child = Some (KNum 0) \<or> vkey child = Some (KStr []) \<or> vkey child = Some KNaN \<longrightarrow>
        \<not> truthy_key (vkey child))
   \<and> (truthy_key (vkey child) \<longrightarrow>
        (\<exists>k. vkey child = Some k
           \<and> fst (selectOldChild child i oldChildren byKey used) = map_of byKey k))"
  by (cases "vkey child") (auto simp: selectOldChild_def split: option.splits)

theorem selectOldChild_rule_witness:
  "\<not> truthy_key (vkey (li (Some (KNum 0))))
   \<and> selectOldChild (li (Some (KNum 0))) 1 [5, 6] [(KNum 0, 5), (KStr ''a'', 6)] []
       = (Some 6, [(KNum 0, 5), (KStr ''a'', 6)], [6])
   \<and> truthy_key (vkey (li (Some (KStr ''a''))))
   \<and> selectOldChild (li (Some (KStr ''a''))) 0 [5, 6] [(KNum 0, 5), (KStr ''a'', 6)] []
       = (Some 6, [(KNum 0, 5)], [6])"
  using selectOldChild_rule [of "li (Some (KNum 0))" 1 "[5, 6]" "[(KNum 0, 5), (KStr ''a'', 6)]" "[]"]
  by (simp add: selectOldChild_def li_def child_at_def set_add_def)

section \<open>Properties of the scheduler\<close>

lemma enqueueRender_scheduled: "scheduled s \<Longrightarrow> enqueueRender s = s"
  by (simp add: enqueueRender_def)

lemma enqueueRender_funpow:
  "\<not> scheduled s \<Longrightarrow> 0 < K \<Longrightarrow>
   (enqueueRender ^^ K) s = s\<lparr>scheduled := True, microtasks := microtasks s @ [RenderTask]\<rparr>"
proof (induction K)
  case 0
  then show ?case by simp
next
  case (Suc K)
  show ?case
  proof (cases "K = 0")
    case True
    then show ?thesis using Suc.prems by (simp add: enqueueRender_def enqueue_def)
  next
    case False
    then have h: "(enqueueRender ^^ K) s = s\<lparr>scheduled := True, microtasks := microtasks s @ [RenderTask]\<rparr>"
      using Suc by simp
    have "(enqueueRender ^^ Suc K) s = enqueueRender ((enqueueRender ^^ K) s)" by simp
    also have "\<dots> = enqueueRender (s\<lparr>scheduled := True, microtasks := microtasks s @ [RenderTask]\<rparr>)"
      by (simp only: h)
    also have "\<dots> = s\<lparr>scheduled := True, microtasks := microtasks s @ [RenderTask]\<rparr>"
      by (simp add: enqueueRender_scheduled)
    finally show ?thesis .
  qed
qed

lemma setStates_changing:
  "map_of (hooks_state s) path = Some arr \<Longrightarrow> changing (array_get arr c) args \<Longrightarrow>
   \<exists>s'. setStates path c args s = (Inr (), s')
      \<and> (\<exists>arr'. map_of (hooks_state s') path = Some arr'
             \<and> array_get arr' c = final_state (array_get arr c) args)
      \<and> scheduled s' = (scheduled s \<or> args \<noteq> [])
      \<and> microtasks s' = (if scheduled s \<or> args = [] then microtasks s else microtasks s @ [RenderTask])"
proof (induction args arbitrary: s arr)
  case Nil
  then show ?case by (simp add: returnM_def)
next
  case (Cons a as)
  let ?new = "newState a (array_get arr c)"
  let ?s1 = "enqueueRender (s\<lparr>hooks_state := AList.update path (array_set arr c ?new) (hooks_state s)\<rparr>)"
  have st: "setState path c a s = (Inr (), ?s1)"
    using Cons.prems by (simp add: setState_def Let_def)
  have m1: "map_of (hooks_state ?s1) path = Some (array_set arr c ?new)"
    by (simp add: enqueueRender_def enqueue_def map_of_update_if)
  have ch: "changing (array_get (array_set arr c ?new) c) as"
    using Cons.prems by (simp add: array_get_set_same)
  from Cons.IH [OF m1 ch] obtain s' where
    r: "setStates path c as ?s1 = (Inr (), s')"
    and v: "\<exists>arr'. map_of (hooks_state s') path = Some arr'
             \<and> array_get arr' c = final_state (array_get (array_set arr c ?new) c) as"
    and sc: "scheduled s' = (scheduled ?s1 \<or> as \<noteq> [])"
    and mt: "microtasks s' = (if scheduled ?s1 \<or> as = [] then microtasks ?s1 else microtasks ?s1 @ [RenderTask])"
    by blast
  have s1s: "scheduled ?s1" by (simp add: enqueueRender_def enqueue_def)
  have s1m: "microtasks ?s1 = (if scheduled s then microtasks s else microtasks s @ [RenderTask])"
    by (simp add: enqueueRender_def enqueue_def)
  show ?case
    using r v sc mt s1s s1m st
    by (simp add: bindM_def array_get_set_same)
qed


section \<open>Properties of the effect hook\<close>

text \<open>
  Claim C6. \<open>useEffect\<close> inside a component, at the path on top of the component stack and
  the cursor of that path. On the first visit of the slot (the cursor is beyond the stored
  hooks) it appends the hook with the deps, no cleanup and the effect function, and appends
  \<open>(path, cursor)\<close> to the effect queue. On a later visit of an effect slot the deps
  count as changed when they are \<open>undefined\<close> or differ from the stored ones (a
  stored \<open>null\<close>, another length, or an element that is not the same for \<open>Object.is\<close>);
  then the slot gets the new deps and effect function, keeps its cleanup, and
  \<open>(path, cursor)\<close> is appended to the queue. When the deps did not change, the stored
  hooks and the queue stay as they are.
\<close>

theorem useEffect_rule:
  assumes "hooks_componentStack s \<noteq> []"
    and "path = last (hooks_componentStack s)"
    and "cur = (case map_of (hooks_cursor s) path of None \<Rightarrow> 0 | Some c \<Rightarrow> c)"
    and "hooks = (case map_of (hooks_state s) path of None \<Rightarrow> [] | Some h \<Rightarrow> h)"
    and "changed = (deps = None \<or> (\<exists>d. deps = Some d \<and>
            \<not> (\<exists>a. pd = Some a \<and> length a = length d \<and> (\<forall>k<length d. Object_is (a ! k) (d ! k)))))"
  shows "(length hooks \<le> cur \<longrightarrow>
            (\<exists>s'. useEffect effect deps s = (Inr (), s')
               \<and> map_of (hooks_state s') path = Some (hooks @ [VEffect deps None effect])
               \<and> (\<forall>q. q \<noteq> path \<longrightarrow> map_of (hooks_state s') q = map_of (hooks_state s) q)
               \<and> effects_queue s' = effects_queue s @ [(path, cur)]))
       \<and> (cur < length hooks \<and> hooks ! cur = VEffect pd pc pe \<and> changed \<longrightarrow>
            (\<exists>s'. useEffect effect deps s = (Inr (), s')
               \<and> map_of (hooks_state s') path = Some (hooks[cur := VEffect deps pc effect])
               \<and> (\<forall>q. q \<noteq> path \<longrightarrow> map_of (hooks_state s') q = map_of (hooks_state s) q)
               \<and> effects_queue s' = effects_queue s @ [(path, cur)]))
       \<and> (cur < length hooks \<and> hooks ! cur = VEffect pd pc pe \<and> \<not> changed \<longrightarrow>
            (\<exists>s'. useEffect effect deps s = (Inr (), s')
               \<and> hooks_state s' = hooks_state s
               \<and> effects_queue s' = effects_queue s))"
proof -
  have sh: "\<And>d. shallowEquals pd d \<longleftrightarrow>
      (\<exists>a. pd = Some a \<and> length a = length d \<and> (\<forall>k<length d. Object_is (a ! k) (d ! k)))"
    by (rule shallowEquals_iff)
  show ?thesis
    using assms(1-4) unfolding assms(5)
    by (cases deps; cases "map_of (hooks_state s) path")
       (auto simp: useEffect_def bindM_def currentPath_def currentCursor_def currentHooks_def
          map_of_update_if sh split: option.splits)
qed


theorem useEffect_rule_witness:
  "hooks_componentStack (engine0\<lparr>hooks_componentStack := [''0'']\<rparr>) \<noteq> []
   \<and> useEffect 7 (Some [VNum 1]) (engine0\<lparr>hooks_componentStack := [''0'']\<rparr>)
      = (Inr (), engine0\<lparr>hooks_componentStack := [''0''],
                   hooks_state := [(''0'', [VEffect (Some [VNum 1]) None 7])],
                   effects_queue := [(''0'', 0)], hooks_cursor := [(''0'', 1)]\<rparr>)
   \<and> useEffect 8 (Some [VNum 2])
        (engine0\<lparr>hooks_componentStack := [''0''],
                 hooks_state := [(''0'', [VEffect (Some [VNum 1]) (Some 9) 7])],
                 hooks_cursor := [(''0'', 0)]\<rparr>)
      = (Inr (), engine0\<lparr>hooks_componentStack := [''0''],
                   hooks_state := [(''0'', [VEffect (Some [VNum 2]) (Some 9) 8])],
                   hooks_cursor := [(''0'', 1)], effects_queue := [(''0'', 0)]\<rparr>)
   \<and> useEffect 8 (Some [VNum 1])
        (engine0\<lparr>hooks_componentStack := [''0''],
                 hooks_state := [(''0'', [VEffect (Some [VNum 1]) (Some 9) 7])],
                 hooks_cursor := [(''0'', 0)]\<rparr>)
      = (Inr (), engine0\<lparr>hooks_componentStack := [''0''],
                   hooks_state := [(''0'', [VEffect (Some [VNum 1]) (Some 9) 7])],
                   hooks_cursor := [(''0'', 1)]\<rparr>)"
  using useEffect_rule [of "engine0\<lparr>hooks_componentStack := [''0'']\<rparr>" "''0''" 0 "[]" True
      "Some [VNum 1]" None 7 None 0]
  by (simp add: useEffect_def bindM_def currentPath_def currentCursor_def currentHooks_def engine0_def)



section \<open>What the reconciler leaves alone\<close>

lemma frameI: "(\<And>s r s'. m s = (r, s') \<Longrightarrow> R s s') \<Longrightarrow> frame R m"
  by (simp add: frame_def)

lemma frameD: "frame R m \<Longrightarrow> m s = (r, s') \<Longrightarrow> R s s'"
  by (simp add: frame_def)

lemma preorder_refl: "preorder R \<Longrightarrow> R s s"
  by (simp add: preorder_def reflpD)

lemma preorder_trans: "preorder R \<Longrightarrow> R s t \<Longrightarrow> R t u \<Longrightarrow> R s u"
  by (simp add: preorder_def) (meson transpD)

lemma prim_preorder: "prim_frame R \<Longrightarrow> preorder R"
  by (simp add: prim_frame_def)

lemma frame_returnM: "preorder R \<Longrightarrow> frame R (returnM x)"
  by (auto simp: frame_def returnM_def preorder_refl)

lemma frame_throwM: "preorder R \<Longrightarrow> frame R (throwM e)"
  by (auto simp: frame_def throwM_def preorder_refl)

lemma frame_get_inst: "preorder R \<Longrightarrow> frame R (get_inst i)"
  by (auto simp: frame_def get_inst_def preorder_refl split: option.splits)

lemma frame_liftM: "(\<And>s. R s (f s)) \<Longrightarrow> frame R (liftM f)"
  by (auto simp: frame_def liftM_def)

lemma frame_bindM:
  assumes "preorder R" and "frame R m" and "\<And>x. frame R (f x)"
  shows "frame R (bindM m f)"
proof (rule frameI)
  fix s r s'
  assume a: "bindM m f s = (r, s')"
  obtain r1 s1 where m: "m s = (r1, s1)" by (cases "m s")
  have r1: "R s s1" using assms(2) m by (rule frameD)
  show "R s s'"
  proof (cases r1)
    case (Inl e)
    then show ?thesis using a m r1 by (simp add: bindM_def)
  next
    case (Inr x)
    then have "f x s1 = (r, s')" using a m by (simp add: bindM_def)
    then have "R s1 s'" using assms(3) by (rule frameD [rotated])
    then show ?thesis using r1 assms(1) preorder_trans by blast
  qed
qed

text \<open>After \<open>get_inst\<close> the record read is the stored one.\<close>

lemma frame_get_bind:
  assumes "preorder R"
    and "\<And>I s r s'. map_of (instances s) i = Some I \<Longrightarrow> f I s = (r, s') \<Longrightarrow> R s s'"
  shows "frame R (bindM (get_inst i) f)"
  using assms
  by (auto simp: frame_def bindM_def get_inst_def preorder_refl split: option.splits)

lemma frame_forM:
  assumes "preorder R" and "\<And>x. frame R (f x)"
  shows "frame R (forM xs f)"
  by (induction xs) (auto intro!: frame_bindM frame_returnM assms)

lemma frame_firstSome:
  assumes "preorder R" and "\<And>x. frame R (f x)"
  shows "frame R (firstSome xs f)"
proof (induction xs)
  case Nil
  then show ?case by (simp add: frame_returnM assms)
next
  case (Cons x xs)
  show ?case
    by (simp, rule frame_bindM [OF assms(1) assms(2)])
       (auto split: option.splits intro: frame_returnM assms Cons)
qed

lemma frame_getDomNodes: "preorder R \<Longrightarrow> frame R (getDomNodes n i)"
proof (induction n arbitrary: i)
  case 0
  then show ?case by (simp add: frame_throwM)
next
  case (Suc n)
  show ?case
    by (simp, rule frame_bindM [OF Suc.prems frame_get_inst [OF Suc.prems]])
       (auto intro!: frame_returnM frame_bindM frame_forM Suc)
qed

lemma frame_getFirstDom: "preorder R \<Longrightarrow> frame R (getFirstDom n i)"
proof (induction n arbitrary: i)
  case 0
  then show ?case by (simp add: frame_throwM)
next
  case (Suc n)
  show ?case
    by (simp, rule frame_bindM [OF Suc.prems frame_get_inst [OF Suc.prems]])
       (auto intro!: frame_returnM frame_firstSome Suc)
qed

lemma frame_getFirstDomFromChildren: "preorder R \<Longrightarrow> frame R (getFirstDomFromChildren n cs)"
  by (simp add: getFirstDomFromChildren_def frame_firstSome frame_getFirstDom)

lemma frame_insertNodes:
  assumes "preorder R" and "\<And>p d s. R s (appendChild p d s)" and "\<And>p d a. frame R (insertBefore p d a)"
  shows "frame R (insertNodes pd ds a)"
proof (induction ds)
  case Nil
  then show ?case by (simp add: frame_returnM assms)
next
  case (Cons d ds)
  have 1: "frame R (case a of Some x \<Rightarrow> insertBefore pd d x | None \<Rightarrow> liftM (appendChild pd d))"
    using assms by (auto split: option.splits intro: frame_liftM)
  show ?case
    by (simp, rule frame_bindM [OF assms(1) 1]) (rule Cons.IH)
qed

lemma frame_insertInstance:
  assumes "preorder R" and "\<And>p d s. R s (appendChild p d s)" and "\<And>p d a. frame R (insertBefore p d a)"
  shows "frame R (insertInstance n pd i a)"
  unfolding insertInstance_def
  by (rule frame_bindM [OF assms(1) frame_getDomNodes [OF assms(1)]])
     (rule frame_insertNodes [OF assms])

lemma frame_fold:
  assumes "preorder R" and "\<And>x s. R s (f x s)"
  shows "R s (fold f xs s)"
proof (induction xs arbitrary: s)
  case Nil
  then show ?case by (simp add: preorder_refl assms)
next
  case (Cons x xs)
  have "R s (f x s)" by (rule assms)
  moreover have "R (f x s) (fold f xs (f x s))" by (rule Cons)
  ultimately show ?case using assms(1) preorder_trans by fastforce
qed

lemma frame_removeInstance:
  assumes "preorder R" and "\<And>d s. R s (removeChild d s)"
  shows "frame R (removeInstance n i)"
  unfolding removeInstance_def
  by (rule frame_bindM [OF assms(1) frame_getDomNodes [OF assms(1)]])
     (rule frame_liftM, rule frame_fold [OF assms(1)], rule assms(2))

lemma frame_unmount:
  assumes "preorder R" and "\<And>d s. R s (removeChild d s)"
  shows "frame R (unmount n i)"
proof (induction n arbitrary: i)
  case 0
  then show ?case by (simp add: frame_throwM assms)
next
  case (Suc n)
  show ?case
    by (simp, rule frame_bindM [OF assms(1) frame_get_inst [OF assms(1)]])
       (auto intro!: frame_bindM frame_forM frame_removeInstance Suc assms)
qed

lemma frame_buildKeyMap: "preorder R \<Longrightarrow> frame R (buildKeyMap cs m)"
proof (induction cs arbitrary: m)
  case Nil
  then show ?case by (simp add: frame_returnM)
next
  case (Cons c cs)
  show ?case
    by (simp, rule frame_bindM [OF Cons.prems frame_get_inst [OF Cons.prems]])
       (auto split: option.splits intro: Cons)
qed

lemma frame_run_comp:
  assumes "preorder R" and "\<And>i. frame R (useState i)" and "\<And>e d. frame R (useEffect e d)"
  shows "frame R (run_comp c)"
proof (induction c)
  case (Return v)
  then show ?case by (simp add: frame_returnM assms)
next
  case (UseState i k)
  then show ?case using assms by (auto intro!: frame_bindM)
next
  case (UseEffect e d k)
  then show ?case using assms by (auto intro!: frame_bindM)
next
  case Throw
  then show ?case by (simp add: frame_throwM assms)
qed

lemma frame_call_component:
  assumes "preorder R" and "\<And>i. frame R (useState i)" and "\<And>e d. frame R (useEffect e d)"
  shows "frame R (call_component ce nd)"
  using assms
  by (auto simp: call_component_def frame_run_comp frame_throwM split: node_type.splits)

lemma frame_set_children:
  assumes "preorder R"
    and "\<And>s I cs. map_of (instances s) i = Some I \<Longrightarrow> R s (put_inst i (I\<lparr>i_children := cs\<rparr>) s)"
  shows "frame R (set_children i cs)"
  unfolding set_children_def
  by (rule frame_get_bind [OF assms(1)]) (auto simp: liftM_def assms(2))

lemma frame_childLoop:
  assumes "preorder R" and "\<And>p d s. R s (appendChild p d s)" and "\<And>p d a. frame R (insertBefore p d a)"
    and "\<And>oc c cp. frame R (rc oc c cp)"
  shows "frame R (childLoop rc n pd pp ch old i rest st)"
proof (induction rest arbitrary: i st)
  case Nil
  then show ?case by (simp add: frame_returnM assms)
next
  case (Cons c rest)
  show ?case
  proof (cases c)
    case None
    then show ?thesis using Cons by simp
  next
    case (Some child)
    show ?thesis
      unfolding Some childLoop.simps Let_def
      by (rule frame_bindM [OF assms(1) assms(4)])
         (auto split: option.splits
               intro!: Cons frame_bindM frame_returnM frame_getFirstDomFromChildren
                       frame_insertInstance assms)
  qed
qed


lemma prim_facts:
  assumes "prim_frame R"
  shows "preorder R"
    and "\<And>tag. frame R (createElement tag)"
    and "\<And>text. frame R (createTextNode text)"
    and "\<And>d props s. R s (setDomProps d props s)"
    and "\<And>I. frame R (new_instance I)"
    and "\<And>s i I nd p. map_of (instances s) i = Some I \<Longrightarrow> R s (put_inst i (I\<lparr>i_node := nd, i_path := p\<rparr>) s)"
    and "\<And>I nd s. R s (patch_host I nd s)"
    and "\<And>s i I cs. map_of (instances s) i = Some I \<Longrightarrow> R s (put_inst i (I\<lparr>i_children := cs\<rparr>) s)"
    and "\<And>p s. R s (enter_component p s)"
    and "\<And>s. R s (leave_component s)"
    and "\<And>i. frame R (useState i)"
    and "\<And>e d. frame R (useEffect e d)"
    and "\<And>d s. R s (removeChild d s)"
    and "\<And>p d s. R s (appendChild p d s)"
    and "\<And>p d a. frame R (insertBefore p d a)"
  using assms unfolding prim_frame_def by simp_all

lemma frame_reconcile_body:
  assumes "preorder R" and "\<And>i. frame R (um i)" and "\<And>pd nd p. frame R (mt pd nd p)"
    and "\<And>pd i nd p. frame R (up pd i nd p)"
  shows "frame R (reconcile_body um mt up pd i nd p)"
  unfolding reconcile_body_def
  by (auto split: option.splits
           intro!: frame_bindM [OF assms(1)] frame_returnM [OF assms(1)] frame_get_inst [OF assms(1)]
                   assms(2-4))

lemma frame_create_host:
  assumes "prim_frame R"
  shows "frame R (create_host nd)"
proof -
  note p = prim_facts [OF assms]
  show ?thesis
    unfolding create_host_def
    by (auto split: node_type.splits
           intro!: frame_bindM [OF p(1)] frame_returnM [OF p(1)] frame_throwM [OF p(1)]
                   frame_liftM p(2) p(3) p(4))
qed

lemma frame_mount_body:
  assumes "prim_frame R" and "\<And>pd i ch p. frame R (rc pd i ch p)"
  shows "frame R (mount_body rc pd nd p)"
proof -
  note p = prim_facts [OF assms(1)]
  show ?thesis
    unfolding mount_body_def
    by (intro frame_bindM [OF p(1)] frame_returnM [OF p(1)] frame_create_host [OF assms(1)]
          p(5) assms(2))
qed

lemma frame_update_body:
  assumes "prim_frame R" and "\<And>pd i ch p. frame R (rc pd i ch p)"
  shows "frame R (update_body rc pd i nd p)"
  unfolding update_body_def
proof (rule frame_get_bind [OF prim_preorder [OF assms(1)]])
  note p = prim_facts [OF assms(1)]
  fix I and s :: engine and r :: "error + nat" and s' :: engine
  assume g: "map_of (instances s) i = Some I"
  let ?s1 = "put_inst i (I\<lparr>i_node := nd, i_path := p\<rparr>) s"
  assume "bindM (liftM (put_inst i (I\<lparr>i_node := nd, i_path := p\<rparr>)))
           (\<lambda>u. bindM (liftM (patch_host I nd))
             (\<lambda>u. bindM (rc pd i (vchildren nd) p) (\<lambda>u. returnM i))) s = (r, s')"
  then have k: "bindM (liftM (patch_host I nd))
             (\<lambda>u. bindM (rc pd i (vchildren nd) p) (\<lambda>u. returnM i)) ?s1 = (r, s')"
    by (simp add: bindM_def liftM_def)
  have 1: "R s ?s1" using g by (rule p(6))
  have "frame R (bindM (liftM (patch_host I nd))
             (\<lambda>u. bindM (rc pd i (vchildren nd) p) (\<lambda>u. returnM i)))"
    by (intro frame_bindM [OF p(1)] frame_returnM [OF p(1)] frame_liftM p(7) assms(2))
  then have "R ?s1 s'" using k by (rule frameD)
  with 1 show "R s s'" using p(1) preorder_trans by blast
qed

lemma frame_reconcileComponent:
  assumes "prim_frame R" and "\<And>pd i nd p. frame R (rc pd i nd p)"
  shows "frame R (reconcileComponent rc n ce pd i I p)"
proof -
  note p = prim_facts [OF assms(1)]
  have ins: "\<And>ci. frame R (insertInstance n pd ci None)"
    by (rule frame_insertInstance [OF p(1) p(14) p(15)])
  have sc: "\<And>cs. frame R (set_children i cs)"
    by (rule frame_set_children [OF p(1) p(8)])
  have cc: "frame R (call_component ce (i_node I))"
    by (rule frame_call_component [OF p(1) p(11) p(12)])
  have mid: "\<And>ci. frame R (case ci of None \<Rightarrow> returnM []
            | Some c \<Rightarrow> bindM (if child_at (i_children I) 0 = None \<or> ci \<noteq> child_at (i_children I) 0
                       then insertInstance n pd c None else returnM ()) (\<lambda>u. returnM [c]))"
    by (auto split: option.splits intro!: frame_bindM [OF p(1)] frame_returnM [OF p(1)] ins)
  show ?thesis
    unfolding reconcileComponent_def
    by (intro frame_bindM [OF p(1)] frame_liftM p(9) p(10) cc assms(2) mid sc)
qed

lemma frame_reconcileChildren_body:
  assumes "prim_frame R" and "\<And>pd i nd p. frame R (rc pd i nd p)" and "\<And>i. frame R (um i)"
  shows "frame R (reconcileChildren_body rc um n ce pd i ch p)"
proof -
  note p = prim_facts [OF assms(1)]
  have sc: "\<And>cs. frame R (set_children i cs)"
    by (rule frame_set_children [OF p(1) p(8)])
  have lp: "\<And>pdc km old. frame R (childLoop (rc pdc) n pdc p ch old 0 ch (km, [], []))"
    by (rule frame_childLoop [OF p(1) p(14) p(15)]) (rule assms(2))
  have pdc: "\<And>I. frame R (if i_kind I = HOST
                then (case i_dom I of Some d \<Rightarrow> returnM d | None \<Rightarrow> throwM TypeError)
                else returnM pd)"
    by (auto split: option.splits intro!: frame_returnM [OF p(1)] frame_throwM [OF p(1)])
  have rest: "\<And>I. frame R (bindM (if i_kind I = HOST
                then (case i_dom I of Some d \<Rightarrow> returnM d | None \<Rightarrow> throwM TypeError)
                else returnM pd) (\<lambda>parentDomForChildren.
         bindM (buildKeyMap (i_children I) []) (\<lambda>oldChildrenByKey.
         bindM (childLoop (rc parentDomForChildren)
                  n parentDomForChildren p ch (i_children I) 0 ch
                  (oldChildrenByKey, [], [])) (\<lambda>st.
         bindM (forM (filter (\<lambda>oldChild. oldChild \<notin> set (fst (snd st))) (i_children I)) um) (\<lambda>us.
         set_children i (snd (snd st)))))))"
    by (intro frame_bindM [OF p(1)] pdc frame_buildKeyMap [OF p(1)] lp frame_forM [OF p(1)] assms(3) sc)
  show ?thesis
    unfolding reconcileChildren_body_def
    by (rule frame_bindM [OF p(1) frame_get_inst [OF p(1)]])
       (simp add: rest frame_reconcileComponent [OF assms(1) assms(2)])
qed

theorem engine_frame:
  assumes "prim_frame R"
  shows "(\<forall>pd i nd p. frame R (reconcile n ce pd i nd p))
       \<and> (\<forall>pd nd p. frame R (mount n ce pd nd p))
       \<and> (\<forall>pd i nd p. frame R (update n ce pd i nd p))
       \<and> (\<forall>pd i ch p. frame R (reconcileChildren n ce pd i ch p))"
proof (induction n)
  case 0
  then show ?case by (simp add: frame_throwM prim_preorder assms)
next
  case (Suc n)
  note p = prim_facts [OF assms]
  have um: "\<And>i. frame R (unmount n i)"
    by (rule frame_unmount [OF p(1) p(13)])
  from Suc have rc: "\<And>pd i nd p. frame R (reconcile n ce pd i nd p)"
    and mt: "\<And>pd nd p. frame R (mount n ce pd nd p)"
    and up: "\<And>pd i nd p. frame R (update n ce pd i nd p)"
    and rch: "\<And>pd i ch p. frame R (reconcileChildren n ce pd i ch p)"
    by blast+
  show ?case
    by (simp add: frame_reconcile_body [OF p(1) um mt up] frame_mount_body [OF assms rch]
        frame_update_body [OF assms rch] frame_reconcileChildren_body [OF assms rc um])
qed



lemma dom_change_refl: "dom_change s s"
  unfolding dom_change_def
  by (rule exI [of _ "dom_nodes s"], rule exI [of _ "next_dom s"]) simp

lemma dom_change_nodes: "dom_change s (s\<lparr>dom_nodes := dn\<rparr>)"
  unfolding dom_change_def
  by (rule exI [of _ dn], rule exI [of _ "next_dom s"]) simp

lemma dom_change_both: "dom_change s (s\<lparr>dom_nodes := dn, next_dom := nd\<rparr>)"
  unfolding dom_change_def by blast

lemma dom_change_trans: "dom_change s t \<Longrightarrow> dom_change t u \<Longrightarrow> dom_change s u"
  unfolding dom_change_def by (elim exE) (simp, blast)

lemma dom_change_set_parentNode: "dom_change s (set_parentNode d p s)"
  unfolding set_parentNode_def
  by (cases "map_of (dom_nodes s) d") (simp_all add: dom_change_refl dom_change_nodes)

lemma dom_change_set_childNodes: "dom_change s (set_childNodes d cs s)"
  unfolding set_childNodes_def
  by (cases "map_of (dom_nodes s) d") (simp_all add: dom_change_refl dom_change_nodes)

lemma dom_change_removeChild: "dom_change s (removeChild d s)"
  unfolding removeChild_def
  by (cases "parentNode s d")
     (auto simp: dom_change_refl intro: dom_change_trans dom_change_set_parentNode dom_change_set_childNodes)

lemma dom_change_appendChild: "dom_change s (appendChild p d s)"
  unfolding appendChild_def Let_def
  by (blast intro: dom_change_trans dom_change_set_parentNode dom_change_set_childNodes
      dom_change_removeChild)

lemma dom_change_set_nodeValue: "dom_change s (set_nodeValue d t s)"
  unfolding set_nodeValue_def
  by (cases "map_of (dom_nodes s) d") (simp_all add: dom_change_refl dom_change_nodes)

lemma dom_change_insertBefore: "insertBefore p d a s = (r, s') \<Longrightarrow> dom_change s s'"
proof -
  have k: "\<And>cs. dom_change s (set_parentNode d (Some p) (set_childNodes p cs (removeChild d s)))"
    by (blast intro: dom_change_trans dom_change_set_parentNode dom_change_set_childNodes
      dom_change_removeChild)
  assume "insertBefore p d a s = (r, s')"
  then show ?thesis
    unfolding insertBefore_def Let_def
    by (auto split: if_splits simp: dom_change_refl k)
qed

lemma dom_change_create:
  "createElement tag s = (r, s') \<Longrightarrow> dom_change s s'"
  "createTextNode t s = (r, s') \<Longrightarrow> dom_change s s'"
  by (auto simp: createElement_def createTextNode_def dom_change_both)



lemma hook_change_useState: "useState i s = (r, s') \<Longrightarrow> hook_change s s'"
  by (cases "map_of (hooks_state s) (last (hooks_componentStack s))")
     (auto simp: useState_def bindM_def currentPath_def currentCursor_def currentHooks_def Let_def
        hook_change_def split: if_splits)

lemma hook_change_useEffect: "useEffect e d s = (r, s') \<Longrightarrow> hook_change s s'"
  by (cases "map_of (hooks_state s) (last (hooks_componentStack s))")
     (auto simp: useEffect_def bindM_def currentPath_def currentCursor_def currentHooks_def Let_def
        hook_change_def split: if_splits jsval.splits)

lemma prim_frameI:
  assumes pre: "preorder R"
    and D: "\<And>s dn nd. R s (s\<lparr>dom_nodes := dn, next_dom := nd\<rparr>)"
    and T: "\<And>s e. \<not> is_call e \<Longrightarrow> R s (s\<lparr>trace := trace s @ [e]\<rparr>)"
    and N: "\<And>I. frame R (new_instance I)"
    and U: "\<And>s i I nd p. map_of (instances s) i = Some I \<Longrightarrow> R s (put_inst i (I\<lparr>i_node := nd, i_path := p\<rparr>) s)"
    and C: "\<And>s i I cs. map_of (instances s) i = Some I \<Longrightarrow> R s (put_inst i (I\<lparr>i_children := cs\<rparr>) s)"
    and E: "\<And>p s. R s (enter_component p s)"
    and L: "\<And>s. R s (leave_component s)"
    and H: "\<And>s s'. hook_change s s' \<Longrightarrow> R s s'"
  shows "prim_frame R"
proof -
  have dc: "\<And>s s'. dom_change s s' \<Longrightarrow> R s s'"
    unfolding dom_change_def using D by blast
  have rc: "\<And>d s. R s (removeChild d s)"
    by (rule dc) (rule dom_change_removeChild)
  have ac: "\<And>p d s. R s (appendChild p d s)"
    by (rule dc) (rule dom_change_appendChild)
  have nv: "\<And>d t s. R s (set_nodeValue d t s)"
    by (rule dc) (rule dom_change_set_nodeValue)
  have ib: "\<And>p d a. frame R (insertBefore p d a)"
    by (rule frameI) (rule dc, erule dom_change_insertBefore)
  have ce: "\<And>tag. frame R (createElement tag)"
    by (rule frameI) (rule dc, erule dom_change_create)
  have ct: "\<And>t. frame R (createTextNode t)"
    by (rule frameI) (rule dc, erule dom_change_create)
  have H1: "\<And>i. frame R (useState i)"
    by (rule frameI) (rule H, erule hook_change_useState)
  have H2: "\<And>e d. frame R (useEffect e d)"
    by (rule frameI) (rule H, erule hook_change_useEffect)
  have sp: "\<And>d props s. R s (setDomProps d props s)"
    unfolding setDomProps_def by (rule T) simp
  have up: "\<And>d p q s. R s (updateDomProps d p q s)"
    unfolding updateDomProps_def by (rule T) simp
  have ph: "\<And>I nd s. R s (patch_host I nd s)"
    unfolding patch_host_def
    by (auto split: inst_kind.splits option.splits simp: nv up preorder_refl [OF pre])
  show ?thesis
    unfolding prim_frame_def
    by (simp add: pre ce ct sp N U ph C E L H1 H2 rc ac ib)
qed



lemma preorder_control_kept: "preorder control_kept"
  unfolding preorder_def
proof
  show "reflp control_kept" by (rule reflpI) (simp add: control_kept_def)
  show "transp control_kept"
  proof (rule transpI)
    fix s t u
    assume a: "control_kept s t" and b: "control_kept t u"
    from a obtain t1 q1 where 1: "trace t = trace s @ t1" "\<not> list_ex is_call t1"
      "effects_queue t = effects_queue s @ q1"
      by (auto simp: control_kept_def)
    from b obtain t2 q2 where 2: "trace u = trace t @ t2" "\<not> list_ex is_call t2"
      "effects_queue u = effects_queue t @ q2"
      by (auto simp: control_kept_def)
    have "trace u = trace s @ (t1 @ t2) \<and> \<not> list_ex is_call (t1 @ t2)"
      using 1 2 by simp
    moreover have "effects_queue u = effects_queue s @ (q1 @ q2)" using 1 2 by simp
    ultimately show "control_kept s u"
      using a b unfolding control_kept_def by metis
  qed
qed

lemma hook_change_fields:
  assumes "hook_change s s'"
  shows "root_container s' = root_container s" "root_node s' = root_node s"
    "root_instance s' = root_instance s" "scheduled s' = scheduled s"
    "microtasks s' = microtasks s" "trace s' = trace s" "instances s' = instances s"
    "next_instance s' = next_instance s" "hooks_visited s' = hooks_visited s"
    "hooks_componentStack s' = hooks_componentStack s" "dom_nodes s' = dom_nodes s"
    "next_dom s' = next_dom s"
proof -
  from assms have e: "s'\<lparr>hooks_state := hooks_state s, hooks_cursor := hooks_cursor s,
         effects_queue := effects_queue s\<rparr> = s"
    by (simp add: hook_change_def)
  show "root_container s' = root_container s" by (subst e [symmetric]) simp
  show "root_node s' = root_node s" by (subst e [symmetric]) simp
  show "root_instance s' = root_instance s" by (subst e [symmetric]) simp
  show "scheduled s' = scheduled s" by (subst e [symmetric]) simp
  show "microtasks s' = microtasks s" by (subst e [symmetric]) simp
  show "trace s' = trace s" by (subst e [symmetric]) simp
  show "instances s' = instances s" by (subst e [symmetric]) simp
  show "next_instance s' = next_instance s" by (subst e [symmetric]) simp
  show "hooks_visited s' = hooks_visited s" by (subst e [symmetric]) simp
  show "hooks_componentStack s' = hooks_componentStack s" by (subst e [symmetric]) simp
  show "dom_nodes s' = dom_nodes s" by (subst e [symmetric]) simp
  show "next_dom s' = next_dom s" by (subst e [symmetric]) simp
qed

theorem prim_control_kept: "prim_frame control_kept"
proof (rule prim_frameI)
  show "preorder control_kept" by (rule preorder_control_kept)
  show "\<And>s s'. hook_change s s' \<Longrightarrow> control_kept s s'"
    by (simp add: control_kept_def hook_change_fields) (simp add: hook_change_def)
  show "\<And>I. frame control_kept (new_instance I)"
    by (simp add: frame_def new_instance_def control_kept_def)
qed (simp_all add: control_kept_def put_inst_def enter_component_def leave_component_def)



lemma list_all_keys_update:
  "list_all P (map fst (AList.update k v al)) \<longleftrightarrow> P k \<and> list_all P (map fst al)"
  by (induction al) auto

lemma store_ok_keys: "store_ok s \<Longrightarrow> map_of (instances s) j = Some J \<Longrightarrow> j < next_instance s"
  by (auto simp: store_ok_def list_all_iff dest!: map_of_SomeD)


lemma preorder_insts_kept: "preorder insts_kept"
  unfolding preorder_def
proof
  show "reflp insts_kept" by (rule reflpI) (simp add: insts_kept_def)
  show "transp insts_kept"
  proof (rule transpI)
    fix s t u
    assume a: "insts_kept s t" and b: "insts_kept t u"
    show "insts_kept s u"
      unfolding insts_kept_def
    proof (intro impI conjI allI)
      assume ok: "store_ok s"
      then have okt: "store_ok t" using a by (simp add: insts_kept_def)
      then show "store_ok u" using b by (simp add: insts_kept_def)
      show "next_instance s \<le> next_instance u"
        using a b ok okt unfolding insts_kept_def by fastforce
    next
      fix j J
      assume ok: "store_ok s" and j: "map_of (instances s) j = Some J"
      then obtain J' where 1: "map_of (instances t) j = Some J'" "i_kind J' = i_kind J"
        "i_dom J' = i_dom J" "i_key J' = i_key J"
        using a unfolding insts_kept_def by blast
      have okt: "store_ok t" using a ok by (simp add: insts_kept_def)
      then obtain J'' where 2: "map_of (instances u) j = Some J''" "i_kind J'' = i_kind J'"
        "i_dom J'' = i_dom J'" "i_key J'' = i_key J'"
        using b 1(1) unfolding insts_kept_def by blast
      show "\<exists>J'. map_of (instances u) j = Some J' \<and> i_kind J' = i_kind J
                  \<and> i_dom J' = i_dom J \<and> i_key J' = i_key J"
        using 1 2 by simp
    qed
  qed
qed

lemma list_all_keys: "list_all P (map fst al) \<Longrightarrow> map_of al j = Some J \<Longrightarrow> P j"
  by (auto simp: list_all_iff dest!: map_of_SomeD)

lemma insts_kept_put:
  assumes "map_of (instances s) i = Some I" and "i_kind I' = i_kind I" and "i_dom I' = i_dom I"
    and "i_key I' = i_key I"
  shows "insts_kept s (put_inst i I' s)"
  unfolding insts_kept_def
proof (intro impI conjI allI)
  assume ok: "store_ok s"
  have i: "i < next_instance s" using ok assms(1) by (rule store_ok_keys)
  show "store_ok (put_inst i I' s)"
    using ok i by (simp add: store_ok_def put_inst_def list_all_keys_update)
  show "next_instance s \<le> next_instance (put_inst i I' s)"
    by (simp add: put_inst_def)
next
  fix j J
  assume "map_of (instances s) j = Some J"
  then show "\<exists>J'. map_of (instances (put_inst i I' s)) j = Some J' \<and> i_kind J' = i_kind J
          \<and> i_dom J' = i_dom J \<and> i_key J' = i_key J"
    using assms by (auto simp: put_inst_def map_of_update_if)
qed

lemma insts_kept_new: "frame insts_kept (new_instance I)"
proof (rule frameI)
  fix s r s'
  assume "new_instance I s = (r, s')"
  then have s': "s' = s\<lparr>instances := AList.update (next_instance s) I (instances s),
        next_instance := next_instance s + 1\<rparr>"
    by (auto simp: new_instance_def)
  show "insts_kept s s'"
    unfolding insts_kept_def
  proof (intro impI conjI allI)
    assume ok: "store_ok s"
    then have "list_all (\<lambda>j. j < next_instance s + 1) (map fst (instances s))"
      unfolding store_ok_def by (rule list.pred_mono_strong) simp
    then show "store_ok s'"
      by (simp add: s' store_ok_def list_all_keys_update)
    show "next_instance s \<le> next_instance s'" by (simp add: s')
  next
    fix j J
    assume ok: "store_ok s" and j: "map_of (instances s) j = Some J"
    then have "j < next_instance s" by (rule store_ok_keys)
    then show "\<exists>J'. map_of (instances s') j = Some J' \<and> i_kind J' = i_kind J
          \<and> i_dom J' = i_dom J \<and> i_key J' = i_key J"
      using j by (simp add: s' map_of_update_if)
  qed
qed

theorem prim_insts_kept: "prim_frame insts_kept"
proof (rule prim_frameI)
  show "preorder insts_kept" by (rule preorder_insts_kept)
  show "\<And>s s'. hook_change s s' \<Longrightarrow> insts_kept s s'"
    by (simp add: insts_kept_def store_ok_def hook_change_fields)
  show "\<And>I. frame insts_kept (new_instance I)"
    by (rule insts_kept_new)
  show "\<And>s i I nd p. map_of (instances s) i = Some I \<Longrightarrow>
          insts_kept s (put_inst i (I\<lparr>i_node := nd, i_path := p\<rparr>) s)"
    by (rule insts_kept_put) simp_all
  show "\<And>s i I cs. map_of (instances s) i = Some I \<Longrightarrow>
          insts_kept s (put_inst i (I\<lparr>i_children := cs\<rparr>) s)"
    by (rule insts_kept_put) simp_all
qed (simp_all add: insts_kept_def store_ok_def enter_component_def leave_component_def)

lemma set_set_add: "set (set_add x xs) = insert x (set xs)"
  by (auto simp: set_add_def)

lemma preorder_hooks_kept: "preorder hooks_kept"
  unfolding preorder_def
proof
  show "reflp hooks_kept" by (rule reflpI) (simp add: hooks_kept_def)
  show "transp hooks_kept"
  proof (rule transpI)
    fix s t u
    assume a: "hooks_kept s t" and b: "hooks_kept t u"
    show "hooks_kept s u"
      unfolding hooks_kept_def
    proof (intro impI)
      assume h: "set (hooks_componentStack s) \<subseteq> set (hooks_visited s)"
      from a h have 1: "set (hooks_componentStack t) \<subseteq> set (hooks_visited t)"
        "set (hooks_visited s) \<subseteq> set (hooks_visited t)"
        "\<forall>p. p \<notin> set (hooks_visited t) \<longrightarrow> map_of (hooks_state t) p = map_of (hooks_state s) p"
        "distinct (map fst (hooks_state s)) \<longrightarrow> distinct (map fst (hooks_state t))"
        by (simp_all add: hooks_kept_def)
      from b 1(1) have 2: "set (hooks_componentStack u) \<subseteq> set (hooks_visited u)"
        "set (hooks_visited t) \<subseteq> set (hooks_visited u)"
        "\<forall>p. p \<notin> set (hooks_visited u) \<longrightarrow> map_of (hooks_state u) p = map_of (hooks_state t) p"
        "distinct (map fst (hooks_state t)) \<longrightarrow> distinct (map fst (hooks_state u))"
        by (simp_all add: hooks_kept_def)
      have v: "\<forall>p. p \<notin> set (hooks_visited u) \<longrightarrow> map_of (hooks_state u) p = map_of (hooks_state s) p"
        using 1(3) 2(2) 2(3) by (metis subsetD)
      show "set (hooks_componentStack u) \<subseteq> set (hooks_visited u)
          \<and> set (hooks_visited s) \<subseteq> set (hooks_visited u)
          \<and> (\<forall>p. p \<notin> set (hooks_visited u) \<longrightarrow> map_of (hooks_state u) p = map_of (hooks_state s) p)
          \<and> (distinct (map fst (hooks_state s)) \<longrightarrow> distinct (map fst (hooks_state u)))"
        using 1 2 v by blast
    qed
  qed
qed

theorem prim_hooks_kept: "prim_frame hooks_kept"
proof (rule prim_frameI)
  show "preorder hooks_kept" by (rule preorder_hooks_kept)
  show "\<And>s s'. hook_change s s' \<Longrightarrow> hooks_kept s s'"
  proof -
    fix s s'
    assume c: "hook_change s s'"
    note f = hook_change_fields [OF c]
    from c have d: "hooks_state s' = hooks_state s
       \<or> (hooks_componentStack s \<noteq> []
          \<and> (\<exists>hs. hooks_state s' = AList.update (last (hooks_componentStack s)) hs (hooks_state s)))"
      by (simp add: hook_change_def)
    show "hooks_kept s s'"
      unfolding hooks_kept_def f
    proof (intro impI conjI allI)
      fix p
      assume h: "set (hooks_componentStack s) \<subseteq> set (hooks_visited s)"
        and p: "p \<notin> set (hooks_visited s)"
      have "hooks_componentStack s \<noteq> [] \<Longrightarrow> p \<noteq> last (hooks_componentStack s)"
        using h p last_in_set by blast
      then show "map_of (hooks_state s') p = map_of (hooks_state s) p"
        using d by (auto simp: map_of_update_if)
    next
      assume "distinct (map fst (hooks_state s))"
      then show "distinct (map fst (hooks_state s'))"
        using d by (auto simp: distinct_update)
    qed simp_all
  qed
  show "\<And>I. frame hooks_kept (new_instance I)"
    by (simp add: frame_def new_instance_def hooks_kept_def)
  show "\<And>p s. hooks_kept s (enter_component p s)"
    by (auto simp: hooks_kept_def enter_component_def set_set_add)
  show "\<And>s. hooks_kept s (leave_component s)"
    by (auto simp: hooks_kept_def leave_component_def dest: in_set_butlastD)
qed (simp_all add: hooks_kept_def put_inst_def)


section \<open>A fresh mount\<close>


lemma bindM_Inr:
  "bindM m f s = (Inr r, s') \<longleftrightarrow> (\<exists>x s1. m s = (Inr x, s1) \<and> f x s1 = (Inr r, s'))"
  by (cases "m s") (auto simp: bindM_def split: sum.splits)

lemma returnM_Inr: "returnM x s = (Inr r, s') \<longleftrightarrow> r = x \<and> s' = s"
  by (auto simp: returnM_def)

lemma liftM_Inr: "liftM f s = (Inr r, s') \<longleftrightarrow> s' = f s"
  by (auto simp: liftM_def)

lemma get_inst_Inr: "get_inst i s = (Inr I, s') \<longleftrightarrow> map_of (instances s) i = Some I \<and> s' = s"
  by (auto simp: get_inst_def split: option.splits)

lemma update_returns: "update n ce pd i nd p s = (Inr r, s') \<Longrightarrow> r = i"
  by (cases n) (auto simp: throwM_def update_body_def bindM_Inr returnM_Inr)

lemma preorder_fresh_kept: "preorder (fresh_kept b)"
  unfolding preorder_def
proof
  show "reflp (fresh_kept b)" by (rule reflpI) (simp add: fresh_kept_def)
  show "transp (fresh_kept b)"
  proof (rule transpI)
    fix s t u
    assume a: "fresh_kept b s t" and c: "fresh_kept b t u"
    show "fresh_kept b s u"
      unfolding fresh_kept_def
    proof (intro impI)
      assume h: "b \<le> next_instance s"
      from a h obtain t1 where 1: "b \<le> next_instance t"
        "\<forall>j<b. map_of (instances t) j = map_of (instances s) j"
        "trace t = trace s @ t1" "\<not> list_ex is_patch t1"
        by (auto simp: fresh_kept_def)
      from c 1(1) obtain t2 where 2: "b \<le> next_instance u"
        "\<forall>j<b. map_of (instances u) j = map_of (instances t) j"
        "trace u = trace t @ t2" "\<not> list_ex is_patch t2"
        by (auto simp: fresh_kept_def)
      have "trace u = trace s @ (t1 @ t2) \<and> \<not> list_ex is_patch (t1 @ t2)"
        using 1 2 by simp
      then show "b \<le> next_instance u
          \<and> (\<forall>j<b. map_of (instances u) j = map_of (instances s) j)
          \<and> (\<exists>t. trace u = trace s @ t \<and> \<not> list_ex is_patch t)"
        using 1 2 by metis
    qed
  qed
qed

lemma fresh_dom_change: "dom_change s s' \<Longrightarrow> fresh_kept b s s'"
  by (auto simp: dom_change_def fresh_kept_def)

lemma fresh_hook_change: "hook_change s s' \<Longrightarrow> fresh_kept b s s'"
  by (simp add: fresh_kept_def hook_change_fields)

lemma fresh_put:
  "b \<le> i \<Longrightarrow> fresh_kept b s (put_inst i I s)"
  by (auto simp: fresh_kept_def put_inst_def map_of_update_if)

lemma fresh_facts:
  "fresh_kept b s (appendChild p d s)"
  "frame (fresh_kept b) (insertBefore p d a)"
  "fresh_kept b s (removeChild d s)"
  "frame (fresh_kept b) (useState i)"
  "frame (fresh_kept b) (useEffect e dp)"
  "fresh_kept b s (enter_component pth s)"
  "fresh_kept b s (leave_component s)"
  "frame (fresh_kept b) (create_host nd)"
proof -
  note pre = preorder_fresh_kept [of b]
  show "fresh_kept b s (appendChild p d s)"
    by (rule fresh_dom_change) (rule dom_change_appendChild)
  show "frame (fresh_kept b) (insertBefore p d a)"
    by (rule frameI) (rule fresh_dom_change, erule dom_change_insertBefore)
  show "fresh_kept b s (removeChild d s)"
    by (rule fresh_dom_change) (rule dom_change_removeChild)
  show "frame (fresh_kept b) (useState i)"
    by (rule frameI) (rule fresh_hook_change, erule hook_change_useState)
  show "frame (fresh_kept b) (useEffect e dp)"
    by (rule frameI) (rule fresh_hook_change, erule hook_change_useEffect)
  show "fresh_kept b s (enter_component pth s)"
    by (simp add: fresh_kept_def enter_component_def)
  show "fresh_kept b s (leave_component s)"
    by (simp add: fresh_kept_def leave_component_def)
  have ce: "\<And>tag. frame (fresh_kept b) (createElement tag)"
    by (rule frameI) (rule fresh_dom_change, erule dom_change_create)
  have ct: "\<And>t. frame (fresh_kept b) (createTextNode t)"
    by (rule frameI) (rule fresh_dom_change, erule dom_change_create)
  have sp: "\<And>d props s. fresh_kept b s (setDomProps d props s)"
    by (simp add: fresh_kept_def setDomProps_def)
  show "frame (fresh_kept b) (create_host nd)"
    unfolding create_host_def
    by (auto split: node_type.splits
           intro!: frame_bindM [OF pre] frame_returnM [OF pre] frame_throwM [OF pre]
                   frame_liftM ce ct sp)
qed



lemma bindM_returnM: "bindM (returnM x) f = f x"
  by (rule ext) (simp add: bindM_def returnM_def)

lemma selectOldChild_fresh: "selectOldChild child i [] [] used = (None, [], used)"
  by (simp add: selectOldChild_def child_at_def split: option.splits)

lemma frame_childLoop_fresh:
  assumes pre: "preorder R" and ac: "\<And>p d s. R s (appendChild p d s)"
    and ib: "\<And>p d a. frame R (insertBefore p d a)"
    and rc: "\<And>c cp. frame R (rc None c cp)"
  shows "frame R (childLoop rc n pd pp ch [] i rest ([], used, new))"
proof (induction rest arbitrary: i used new)
  case Nil
  then show ?case by (simp add: frame_returnM pre)
next
  case (Cons c rest)
  show ?case
  proof (cases c)
    case None
    then show ?thesis using Cons by simp
  next
    case (Some child)
    have ins: "\<And>nc a. frame R (insertInstance n pd nc a)"
      by (rule frame_insertInstance [OF pre ac ib])
    show ?thesis
      unfolding Some childLoop.simps Let_def selectOldChild_fresh fst_conv snd_conv
      by (rule frame_bindM [OF pre rc])
         (auto split: option.splits
               intro!: Cons frame_bindM [OF pre] frame_returnM [OF pre]
                       frame_getFirstDomFromChildren [OF pre] ins)
  qed
qed

lemma frame_reconcileComponent_fresh:
  assumes "b \<le> i" and "i_children I = []"
    and rc: "\<And>pd nd p. frame (fresh_kept b) (rc pd None nd p)"
  shows "frame (fresh_kept b) (reconcileComponent rc n ce pd i I p)"
proof -
  note pre = preorder_fresh_kept [of b]
  have ins: "\<And>ci. frame (fresh_kept b) (insertInstance n pd ci None)"
    by (rule frame_insertInstance [OF pre fresh_facts(1) fresh_facts(2)])
  have sc: "\<And>cs. frame (fresh_kept b) (set_children i cs)"
    by (rule frame_set_children [OF pre]) (rule fresh_put [OF assms(1)])
  have cc: "frame (fresh_kept b) (call_component ce (i_node I))"
    by (rule frame_call_component [OF pre fresh_facts(4) fresh_facts(5)])
  have mid: "\<And>ci. frame (fresh_kept b) (case ci of None \<Rightarrow> returnM []
            | Some c \<Rightarrow> bindM (if child_at [] 0 = None \<or> ci \<noteq> child_at [] 0
                       then insertInstance n pd c None else returnM ()) (\<lambda>u. returnM [c]))"
    by (auto split: option.splits intro!: frame_bindM [OF pre] frame_returnM [OF pre] ins)
  have c0: "child_at [] 0 = (None :: nat option)" by (simp add: child_at_def)
  show ?thesis
    unfolding reconcileComponent_def assms(2)
    by (intro frame_bindM [OF pre] frame_liftM fresh_facts(6) fresh_facts(7) cc mid sc)
       (simp add: c0 rc)
qed

lemma frame_reconcileList_fresh:
  assumes "b \<le> i"
    and rc: "\<And>pd nd p. frame (fresh_kept b) (rc pd None nd p)"
    and m: "frame (fresh_kept b) m"
  shows "frame (fresh_kept b)
     (bindM m (\<lambda>parentDomForChildren.
         bindM (buildKeyMap [] []) (\<lambda>oldChildrenByKey.
         bindM (childLoop (rc parentDomForChildren)
                  n parentDomForChildren p ch [] 0 ch
                  (oldChildrenByKey, [], [])) (\<lambda>st.
         bindM (forM (filter (\<lambda>oldChild. oldChild \<notin> set (fst (snd st))) []) um) (\<lambda>us.
         set_children i (snd (snd st)))))))"
proof -
  note pre = preorder_fresh_kept [of b]
  have sc: "\<And>cs. frame (fresh_kept b) (set_children i cs)"
    by (rule frame_set_children [OF pre]) (rule fresh_put [OF assms(1)])
  have lp: "\<And>pdc. frame (fresh_kept b) (childLoop (rc pdc) n pdc p ch [] 0 ch ([], [], []))"
    by (rule frame_childLoop_fresh [OF pre fresh_facts(1) fresh_facts(2)]) (rule rc)
  show ?thesis
    unfolding buildKeyMap.simps filter.simps forM.simps bindM_returnM
    by (intro frame_bindM [OF pre] m frame_returnM [OF pre] lp sc)
qed



lemma fresh_new_instance:
  "b \<le> next_instance s \<Longrightarrow> new_instance I s = (r, s') \<Longrightarrow> fresh_kept b s s'"
  by (auto simp: new_instance_def fresh_kept_def map_of_update_if)

lemma bindM_get_inst:
  "map_of (instances s) i = Some I \<Longrightarrow> bindM (get_inst i) f s = f I s"
  by (simp add: bindM_def get_inst_def returnM_def)

lemma fresh_engine:
  "(\<forall>pd nd p. frame (fresh_kept b) (mount n ce pd nd p))
   \<and> (\<forall>pd nd p. frame (fresh_kept b) (reconcile n ce pd None nd p))
   \<and> (\<forall>pd i ch p s r s'. reconcileChildren n ce pd i ch p s = (r, s') \<longrightarrow> b \<le> i \<longrightarrow>
         (\<exists>I. map_of (instances s) i = Some I \<and> i_children I = []) \<longrightarrow> fresh_kept b s s')"
proof (induction n)
  case 0
  note pre = preorder_fresh_kept [of b]
  show ?case
    by (auto simp: frame_def throwM_def preorder_refl [OF pre])
next
  case (Suc n)
  note pre = preorder_fresh_kept [of b]
  from Suc have mt: "\<And>pd nd p. frame (fresh_kept b) (mount n ce pd nd p)"
    and rc: "\<And>pd nd p. frame (fresh_kept b) (reconcile n ce pd None nd p)"
    and rch: "\<And>pd i ch p s r s'. reconcileChildren n ce pd i ch p s = (r, s') \<Longrightarrow> b \<le> i \<Longrightarrow>
         map_of (instances s) i = Some I \<Longrightarrow> i_children I = [] \<Longrightarrow> fresh_kept b s s'" for I
    by blast+
  have 1: "frame (fresh_kept b) (mount (Suc n) ce pd nd p)" for pd nd p
  proof (rule frameI)
    fix s r s'
    assume a: "mount (Suc n) ce pd nd p s = (r, s')"
    obtain r1 s1 where c: "create_host nd s = (r1, s1)" by (cases "create_host nd s")
    have f1: "fresh_kept b s s1" using fresh_facts(8) c by (rule frameD)
    show "fresh_kept b s s'"
    proof (cases r1)
      case (Inl e)
      then show ?thesis using a c f1 by (simp add: mount_body_def bindM_def)
    next
      case (Inr kd)
      let ?I = "\<lparr>i_kind = fst kd, i_dom = snd kd, i_node = nd, i_children = [],
                   i_key = vkey nd, i_path = p\<rparr>"
      let ?j = "next_instance s1"
      let ?s2 = "s1\<lparr>instances := AList.update ?j ?I (instances s1), next_instance := ?j + 1\<rparr>"
      have n2: "new_instance ?I s1 = (Inr ?j, ?s2)" by (simp add: new_instance_def)
      obtain r3 s3 where k: "reconcileChildren n ce pd ?j (vchildren nd) p ?s2 = (r3, s3)"
        by (cases "reconcileChildren n ce pd ?j (vchildren nd) p ?s2")
      have s': "s' = s3"
        using a c Inr n2 k
        by (cases r3) (simp_all add: mount_body_def bindM_def returnM_def)
      show ?thesis
        unfolding fresh_kept_def
      proof (intro impI)
        assume h: "b \<le> next_instance s"
        then have h1: "b \<le> next_instance s1" using f1 by (simp add: fresh_kept_def)
        have f2: "fresh_kept b s1 ?s2" using h1 n2 by (rule fresh_new_instance)
        have m2: "map_of (instances ?s2) ?j = Some ?I" by (simp add: map_of_update_if)
        have f3: "fresh_kept b ?s2 s3"
          using k h1 m2 by (rule rch) simp
        have "fresh_kept b s s3"
          using f1 f2 f3 preorder_trans [OF pre] by blast
        then show "b \<le> next_instance s'
            \<and> (\<forall>j<b. map_of (instances s') j = map_of (instances s) j)
            \<and> (\<exists>t. trace s' = trace s @ t \<and> \<not> list_ex is_patch t)"
          using h by (simp add: s' fresh_kept_def)
      qed
    qed
  qed
  have 2: "frame (fresh_kept b) (reconcile (Suc n) ce pd None nd p)" for pd nd p
    by (auto simp: reconcile_body_def split: option.splits
        intro!: frame_bindM [OF pre] frame_returnM [OF pre] mt)
  have 3: "fresh_kept b s s'"
    if a: "reconcileChildren (Suc n) ce pd i ch p s = (r, s')" and bi: "b \<le> i"
      and g: "map_of (instances s) i = Some I" and ch0: "i_children I = []"
    for pd i ch p s r s' I
  proof -
    have gi: "get_inst i s = (Inr I, s)" using g by (simp add: get_inst_def)
    have fr: "frame (fresh_kept b)
        (if i_kind I = COMPONENT then reconcileComponent (reconcile n ce) n ce pd i I p
         else bindM (if i_kind I = HOST
                then (case i_dom I of Some d \<Rightarrow> returnM d | None \<Rightarrow> throwM TypeError)
                else returnM pd) (\<lambda>parentDomForChildren.
         bindM (buildKeyMap [] []) (\<lambda>oldChildrenByKey.
         bindM (childLoop (reconcile n ce parentDomForChildren)
                  n parentDomForChildren p ch [] 0 ch
                  (oldChildrenByKey, [], [])) (\<lambda>st.
         bindM (forM (filter (\<lambda>oldChild. oldChild \<notin> set (fst (snd st))) []) (unmount n)) (\<lambda>us.
         set_children i (snd (snd st)))))))"
    proof (cases "i_kind I = COMPONENT")
      case True
      then show ?thesis
        by (simp add: frame_reconcileComponent_fresh [where rc = "reconcile n ce", OF bi ch0 rc])
    next
      case False
      have m: "frame (fresh_kept b) (if i_kind I = HOST
                then (case i_dom I of Some d \<Rightarrow> returnM d | None \<Rightarrow> throwM TypeError)
                else returnM pd)"
        by (auto split: option.splits intro!: frame_returnM [OF pre] frame_throwM [OF pre])
      show ?thesis
        using False frame_reconcileList_fresh [where rc = "reconcile n ce", OF bi rc m]
        by (simp only: if_False)
    qed
    from a have "(if i_kind I = COMPONENT then reconcileComponent (reconcile n ce) n ce pd i I p
         else bindM (if i_kind I = HOST
                then (case i_dom I of Some d \<Rightarrow> returnM d | None \<Rightarrow> throwM TypeError)
                else returnM pd) (\<lambda>parentDomForChildren.
         bindM (buildKeyMap [] []) (\<lambda>oldChildrenByKey.
         bindM (childLoop (reconcile n ce parentDomForChildren)
                  n parentDomForChildren p ch [] 0 ch
                  (oldChildrenByKey, [], [])) (\<lambda>st.
         bindM (forM (filter (\<lambda>oldChild. oldChild \<notin> set (fst (snd st))) []) (unmount n)) (\<lambda>us.
         set_children i (snd (snd st))))))) s = (r, s')"
      by (simp only: reconcileChildren.simps reconcileChildren_body_def bindM_get_inst [OF g] ch0)
    with fr show ?thesis by (rule frameD)
  qed
  show ?case using 1 2 3 by blast
qed



lemma store_ok_new: "store_ok s \<Longrightarrow> next_instance s \<le> k \<Longrightarrow> map_of (instances s) k = None"
proof (cases "map_of (instances s) k")
  case None
  then show ?thesis by simp
next
  case (Some K)
  assume ok: "store_ok s" and le: "next_instance s \<le> k"
  have "k < next_instance s" using ok Some by (rule store_ok_keys)
  with le show ?thesis by simp
qed

lemma mount_new:
  assumes m: "mount n ce pd nd p s = (Inr k, s')" and ok: "store_ok s"
  shows "map_of (instances s) k = None
       \<and> (\<exists>K. map_of (instances s') k = Some K \<and> i_key K = vkey nd)"
proof (cases n)
  case 0
  then show ?thesis using m by (simp add: throwM_def)
next
  case (Suc l)
  let ?I = "\<lambda>kd. \<lparr>i_kind = fst kd, i_dom = snd kd, i_node = nd, i_children = [],
                   i_key = vkey nd, i_path = p\<rparr>"
  from m Suc obtain kd s1 s2 u where c: "create_host nd s = (Inr kd, s1)"
    and n: "new_instance (?I kd) s1 = (Inr k, s2)"
    and r: "reconcileChildren l ce pd k (vchildren nd) p s2 = (Inr u, s')"
    by (auto simp: mount_body_def bindM_Inr returnM_Inr)
  have k1: "insts_kept s s1"
    using frame_create_host [OF prim_insts_kept] c by (rule frameD)
  have f1: "fresh_kept (next_instance s) s s1"
    using fresh_facts(8) c by (rule frameD)
  have ok1: "store_ok s1" using k1 ok by (simp add: insts_kept_def)
  have k: "k = next_instance s1" using n by (simp add: new_instance_def)
  have le: "next_instance s \<le> k" using f1 k by (simp add: fresh_kept_def)
  have k2: "insts_kept s1 s2" using insts_kept_new n by (rule frameD)
  have ok2: "store_ok s2" using k2 ok1 by (simp add: insts_kept_def)
  have g2: "map_of (instances s2) k = Some (?I kd)"
    using n by (auto simp: new_instance_def map_of_update_if)
  have fr: "frame insts_kept (reconcileChildren l ce pd k (vchildren nd) p)"
    using engine_frame [OF prim_insts_kept, of l ce] by blast
  have k3: "insts_kept s2 s'" using fr r by (rule frameD)
  then obtain K where "map_of (instances s') k = Some K" and "i_key K = i_key (?I kd)"
    using ok2 g2 unfolding insts_kept_def by blast
  then show ?thesis using store_ok_new [OF ok le] by simp
qed



lemma preorder_dom_change: "preorder dom_change"
  unfolding preorder_def
proof
  show "reflp dom_change" by (rule reflpI) (rule dom_change_refl)
  show "transp dom_change" by (rule transpI) (rule dom_change_trans)
qed

lemma frame_attachRoot:
  assumes "preorder R" and "\<And>p d s. R s (appendChild p d s)" and "\<And>p d a. frame R (insertBefore p d a)"
  shows "frame R (attachRoot n c r)"
proof (cases r)
  case None
  then show ?thesis by (simp add: attachRoot_def frame_returnM assms(1))
next
  case (Some i)
  have ins: "frame R (insertInstance n c i None)" by (rule frame_insertInstance [OF assms])
  have k: "frame R (\<lambda>s. if parentNode s d = None then insertInstance n c i None s else (Inr (), s))" for d
  proof (rule frameI)
    fix s r s'
    assume "(if parentNode s d = None then insertInstance n c i None s else (Inr (), s)) = (r, s')"
    then show "R s s'"
      using frameD [OF ins] preorder_refl [OF assms(1)]
      by (cases "parentNode s d = None") auto
  qed
  show ?thesis
    unfolding attachRoot_def Some option.case
    by (rule frame_bindM [OF assms(1) frame_getFirstDom [OF assms(1)]])
       (auto split: option.splits intro: frame_returnM [OF assms(1)] k)
qed

lemma attachRoot_dom_change: "attachRoot n c r s = (x, s') \<Longrightarrow> dom_change s s'"
proof -
  have "frame dom_change (attachRoot n c r)"
    by (rule frame_attachRoot [OF preorder_dom_change dom_change_appendChild])
       (rule frameI, rule dom_change_insertBefore)
  then show "attachRoot n c r s = (x, s') \<Longrightarrow> dom_change s s'" by (rule frameD)
qed

lemma cleanupHooks_quiet: "\<not> list_ex is_effect (fst (cleanupHooks p i hs))"
  by (induction p i hs rule: cleanupHooks.induct) (auto split: prod.splits)

lemma preorder_gc_change: "preorder gc_change"
  unfolding preorder_def
proof
  show "reflp gc_change" by (rule reflpI) (simp add: gc_change_def)
  show "transp gc_change"
  proof (rule transpI)
    fix s t u
    assume a: "gc_change s t" and b: "gc_change t u"
    from a obtain x where x: "trace t = trace s @ x" "\<not> list_ex is_effect x"
      by (auto simp: gc_change_def)
    from b obtain y where y: "trace u = trace t @ y" "\<not> list_ex is_effect y"
      by (auto simp: gc_change_def)
    have "trace u = trace s @ (x @ y) \<and> \<not> list_ex is_effect (x @ y)"
      using x y by (auto simp: list_ex_iff)
    then have "\<exists>t. trace u = trace s @ t \<and> \<not> list_ex is_effect t" by blast
    then show "gc_change s u" using a b by (simp add: gc_change_def)
  qed
qed

lemma gc_change_cleanupPath: "gc_change s (cleanupPath p s)"
proof -
  have "\<exists>t. trace (cleanupPath p s) = trace s @ t \<and> \<not> list_ex is_effect t"
    by (cases "map_of (hooks_state s) p") (simp_all add: cleanupPath_fields cleanupHooks_quiet)
  then show ?thesis
    by (auto simp: gc_change_def cleanupPath_def Let_def split: option.splits prod.splits)
qed

lemma gc_change_cleanupUnusedHooks: "gc_change s (cleanupUnusedHooks s)"
  unfolding cleanupUnusedHooks_def Let_def
  by (rule frame_fold [OF preorder_gc_change gc_change_cleanupPath])



lemma call_effect: "\<not> list_ex is_call t \<Longrightarrow> \<not> list_ex is_effect t"
proof -
  have "is_effect e \<Longrightarrow> is_call e" for e by (cases e) simp_all
  then show "\<not> list_ex is_call t \<Longrightarrow> \<not> list_ex is_effect t"
    by (auto simp: list_ex_iff)
qed

lemma render_steps:
  assumes c: "root_container s = Some container" and nd: "root_node s = Some node"
    and e: "render n ce s = (r, s')"
  shows "(\<exists>t. trace s' = trace s @ t \<and> \<not> list_ex is_effect t)
       \<and> scheduled s' = scheduled s
       \<and> (\<exists>q. microtasks s' = microtasks s @ q \<and> RenderTask \<notin> set q)
       \<and> (\<forall>u. r = Inr u \<longrightarrow>
            (\<exists>ri s1 s3.
                 reconcile n ce container (root_instance s) (Some node) ''0''
                   (s\<lparr>hooks_visited := []\<rparr>) = (Inr ri, s1)
               \<and> attachRoot n container ri (s1\<lparr>root_instance := ri\<rparr>) = (Inr (), s3)
               \<and> s' = scheduleEffects (cleanupUnusedHooks s3)
               \<and> root_instance s' = ri
               \<and> effects_queue s' = []
               \<and> (\<exists>q. effects_queue s1 = effects_queue s @ q)
               \<and> microtasks s' = microtasks s
                    @ (if effects_queue s1 = [] then [] else [FlushTask (effects_queue s1)])))"
proof -
  let ?s0 = "s\<lparr>hooks_visited := []\<rparr>"
  obtain rr s1 where rc: "reconcile n ce container (root_instance s) (Some node) ''0'' ?s0 = (rr, s1)"
    by (cases "reconcile n ce container (root_instance s) (Some node) ''0'' ?s0")
  have "frame control_kept (reconcile n ce container (root_instance s) (Some node) ''0'')"
    using engine_frame [OF prim_control_kept, of n ce] by blast
  then have ck: "control_kept ?s0 s1" using rc by (rule frameD)
  from ck obtain t1 where t1: "trace s1 = trace s @ t1" "\<not> list_ex is_effect t1"
    by (auto simp: control_kept_def call_effect)
  from ck obtain q where q: "effects_queue s1 = effects_queue s @ q"
    by (auto simp: control_kept_def)
  have sch1: "scheduled s1 = scheduled s" and mt1: "microtasks s1 = microtasks s"
    using ck by (simp_all add: control_kept_def)
  show ?thesis
  proof (cases rr)
    case (Inl err)
    then have "r = Inl err \<and> s' = s1"
      using e c nd rc by (simp add: render_def bindM_def liftM_def)
    then show ?thesis using t1 sch1 mt1 by auto
  next
    case (Inr ri)
    let ?s2 = "s1\<lparr>root_instance := ri\<rparr>"
    obtain ra s3 where at: "attachRoot n container ri ?s2 = (ra, s3)"
      by (cases "attachRoot n container ri ?s2")
    from attachRoot_dom_change [OF at] obtain dn nx where s3: "s3 = ?s2\<lparr>dom_nodes := dn, next_dom := nx\<rparr>"
      by (auto simp: dom_change_def)
    show ?thesis
    proof (cases ra)
      case (Inl err)
      then have "r = Inl err \<and> s' = s3"
        using e c nd rc Inr at by (simp add: render_def bindM_def liftM_def)
      then show ?thesis using t1 sch1 mt1 s3 by auto
    next
      case ra: (Inr v)
      let ?s4 = "cleanupUnusedHooks s3"
      have r: "r = Inr () \<and> s' = scheduleEffects ?s4"
        using e c nd rc Inr at ra by (simp add: render_def bindM_def liftM_def)
      have gc: "gc_change s3 ?s4" by (rule gc_change_cleanupUnusedHooks)
      from gc obtain t2 where t2: "trace ?s4 = trace s3 @ t2" "\<not> list_ex is_effect t2"
        by (auto simp: gc_change_def)
      have tr: "trace s' = trace s @ (t1 @ t2) \<and> \<not> list_ex is_effect (t1 @ t2)"
        using r t1 t2 s3 by (auto simp: scheduleEffects_def Let_def enqueue_def list_ex_iff)
      have 1: "\<exists>t. trace s' = trace s @ t \<and> \<not> list_ex is_effect t"
        using tr by blast
      have 2: "scheduled s' = scheduled s"
        using r gc s3 sch1 by (simp add: scheduleEffects_def Let_def enqueue_def gc_change_def)
      have 3: "root_instance s' = ri"
        using r gc s3 by (simp add: scheduleEffects_def Let_def enqueue_def gc_change_def)
      have 4: "effects_queue s' = []"
        using r by (simp add: scheduleEffects_def Let_def enqueue_def)
      have q4: "effects_queue ?s4 = effects_queue s1" and m4: "microtasks ?s4 = microtasks s"
        using gc s3 mt1 by (simp_all add: gc_change_def)
      have 5: "microtasks s' = microtasks s
                    @ (if effects_queue s1 = [] then [] else [FlushTask (effects_queue s1)])"
        using r q4 m4 by (simp add: scheduleEffects_def Let_def enqueue_def)
      have 6: "\<exists>q. microtasks s' = microtasks s @ q \<and> RenderTask \<notin> set q"
        using 5 by auto
      have "ra = Inr ()" using ra by simp
      then have at': "attachRoot n container ri ?s2 = (Inr (), s3)" using at by simp
      show ?thesis using 1 2 3 4 5 6 q r rc Inr at' by blast
    qed
  qed
qed


lemma render_control:
  assumes "render n ce s = (r, s')"
  shows "scheduled s' = scheduled s
       \<and> (\<exists>q. microtasks s' = microtasks s @ q \<and> RenderTask \<notin> set q)"
proof (cases "\<exists>c nd. root_container s = Some c \<and> root_node s = Some nd")
  case True
  then obtain c nd where "root_container s = Some c" and "root_node s = Some nd" by blast
  from render_steps [OF this assms] show ?thesis by blast
next
  case False
  then have "render n ce s = (Inr (), s)"
    by (auto simp: render_def split: option.splits)
  then show ?thesis using assms by simp
qed


lemma setState_unstored:
  "map_of (hooks_state s) path = None \<Longrightarrow> setState path c a s = (Inl TypeError, s)"
  by (simp add: setState_def)

lemma count_list_no_call: "\<not> list_ex is_call t \<Longrightarrow> count_list t (CallCleanup p i c) = 0"
  by (induction t) auto

lemma useState_scheduleEffects:
  "fst (useState iv (enter_component p (scheduleEffects s))) = fst (useState iv (enter_component p s))"
  by (simp add: useState_def bindM_def currentPath_def currentCursor_def currentHooks_def
      enter_component_def scheduleEffects_def Let_def enqueue_def split: option.splits)

section \<open>Replace or update\<close>

text \<open>
  Claim C1. A call of \<open>reconcile\<close> on a stored previous Instance and a node that is not
  empty. If the types differ or the keys are not strictly equal, the call is the unmount of
  the previous Instance followed by a mount of the node: the Instance it returns was not
  stored before the call, the previous Instance is stored as it was, and the events of the
  call hold no prop patch. Otherwise the call is the update of the previous Instance: it
  returns the same Instance, which keeps its kind, its host node and its key.
\<close>

theorem reconcile_replace_or_update:
  assumes g: "map_of (instances s) i = Some I" and ok: "store_ok s"
    and c: "reconcile (Suc n) ce parentDom (Some i) (Some nd) path s = (r, s')"
  shows "if vtype (i_node I) \<noteq> vtype nd \<or> \<not> key_strict_eq (vkey (i_node I)) (vkey nd)
         then map_of (instances s') i = Some I
            \<and> (\<exists>t. trace s' = trace s @ t \<and> \<not> list_ex is_patch t)
            \<and> (\<forall>j. r = Inr j \<longrightarrow>
                 (\<exists>k s1. j = Some k \<and> unmount n i s = (Inr (), s1)
                    \<and> mount n ce parentDom nd path s1 = (Inr k, s')
                    \<and> map_of (instances s) k = None
                    \<and> (\<exists>K. map_of (instances s') k = Some K \<and> i_key K = vkey nd)))
         else (\<exists>I'. map_of (instances s') i = Some I' \<and> i_kind I' = i_kind I
                  \<and> i_dom I' = i_dom I \<and> i_key I' = i_key I)
            \<and> (\<forall>j. r = Inr j \<longrightarrow> j = Some i \<and> update n ce parentDom i nd path s = (Inr i, s'))"
proof (cases "vtype (i_node I) \<noteq> vtype nd \<or> \<not> key_strict_eq (vkey (i_node I)) (vkey nd)")
  case True
  let ?b = "next_instance s"
  note pre = preorder_fresh_kept [of ?b]
  let ?m = "bindM (unmount n i) (\<lambda>u.
              bindM (mount n ce parentDom nd path) (\<lambda>j. returnM (Some j)))"
  have e: "?m s = (r, s')"
    using c True by (simp add: reconcile_body_def bindM_get_inst [OF g])
  have fu: "frame (fresh_kept ?b) (unmount n i)"
    by (rule frame_unmount [OF pre fresh_facts(3)])
  have fm: "frame (fresh_kept ?b) (mount n ce parentDom nd path)"
    using fresh_engine [of ?b n ce] by blast
  have "frame (fresh_kept ?b) ?m"
    by (intro frame_bindM [OF pre] frame_returnM [OF pre] fu fm)
  then have fk: "fresh_kept ?b s s'" using e by (rule frameD)
  have i: "i < ?b" using ok g by (rule store_ok_keys)
  have 1: "map_of (instances s') i = Some I" using fk i g by (simp add: fresh_kept_def)
  have 2: "\<exists>t. trace s' = trace s @ t \<and> \<not> list_ex is_patch t"
    using fk by (simp add: fresh_kept_def)
  have 3: "\<exists>k s1. j = Some k \<and> unmount n i s = (Inr (), s1)
                    \<and> mount n ce parentDom nd path s1 = (Inr k, s')
                    \<and> map_of (instances s) k = None
                    \<and> (\<exists>K. map_of (instances s') k = Some K \<and> i_key K = vkey nd)"
    if rj: "r = Inr j" for j
  proof -
    from e rj obtain s1 k where u: "unmount n i s = (Inr (), s1)"
      and m: "mount n ce parentDom nd path s1 = (Inr k, s')" and j: "j = Some k"
      by (auto simp: bindM_Inr returnM_Inr)
    have ku: "insts_kept s s1"
      using frame_unmount [OF preorder_insts_kept prim_facts(13) [OF prim_insts_kept]] u
      by (rule frameD)
    have fku: "fresh_kept ?b s s1" using fu u by (rule frameD)
    have ok1: "store_ok s1" using ku ok by (simp add: insts_kept_def)
    have le: "?b \<le> next_instance s1" using fku by (simp add: fresh_kept_def)
    from mount_new [OF m ok1] have n1: "map_of (instances s1) k = None"
      and K: "\<exists>K. map_of (instances s') k = Some K \<and> i_key K = vkey nd" by blast+
    have "map_of (instances s) k = None"
    proof (cases "map_of (instances s) k")
      case None
      then show ?thesis .
    next
      case (Some K0)
      then have "\<exists>K'. map_of (instances s1) k = Some K'"
        using ku ok unfolding insts_kept_def by blast
      with n1 show ?thesis by simp
    qed
    then show ?thesis using u m j K by blast
  qed
  show ?thesis using True 1 2 3 by simp
next
  case False
  let ?m = "bindM (update n ce parentDom i nd path) (\<lambda>j. returnM (Some j))"
  have e: "?m s = (r, s')"
    using c False by (simp add: reconcile_body_def bindM_get_inst [OF g])
  have fu: "frame insts_kept (update n ce parentDom i nd path)"
    using engine_frame [OF prim_insts_kept, of n ce] by blast
  have "frame insts_kept ?m"
    by (intro frame_bindM [OF preorder_insts_kept] frame_returnM [OF preorder_insts_kept] fu)
  then have "insts_kept s s'" using e by (rule frameD)
  then have 1: "\<exists>I'. map_of (instances s') i = Some I' \<and> i_kind I' = i_kind I
                  \<and> i_dom I' = i_dom I \<and> i_key I' = i_key I"
    using ok g unfolding insts_kept_def by blast
  have 2: "j = Some i \<and> update n ce parentDom i nd path s = (Inr i, s')" if rj: "r = Inr j" for j
  proof -
    from e rj obtain k where u: "update n ce parentDom i nd path s = (Inr k, s')" and j: "j = Some k"
      by (auto simp: bindM_Inr returnM_Inr)
    from update_returns [OF u] show ?thesis using u j by simp
  qed
  show ?thesis using False 1 2 by simp
qed

theorem reconcile_replace_or_update_witness:
  "store_ok span_rendered
   \<and> map_of (instances span_rendered) 0
       = Some \<lparr>i_kind = HOST, i_dom = Some 1, i_node = span_a [], i_children = [],
               i_key = Some (KStr ''a''), i_path = ''0''\<rparr>
   \<and> fst (reconcile (Suc 2) no_components 0 (Some 0) (Some div_a) ''0'' span_rendered)
       = Inr (Some 1)
   \<and> map_of (instances (snd (reconcile (Suc 2) no_components 0 (Some 0) (Some div_a) ''0''
          span_rendered))) 0
       = Some \<lparr>i_kind = HOST, i_dom = Some 1, i_node = span_a [], i_children = [],
               i_key = Some (KStr ''a''), i_path = ''0''\<rparr>
   \<and> map_of (instances span_rendered) 1 = None
   \<and> fst (reconcile (Suc 2) no_components 0 (Some 0) (Some (span_a [(''id'', VStr ''x'')])) ''0''
          span_rendered)
       = Inr (Some 0)
   \<and> (\<exists>I'. map_of (instances (snd (reconcile (Suc 2) no_components 0 (Some 0)
                 (Some (span_a [(''id'', VStr ''x'')])) ''0'' span_rendered))) 0 = Some I'
           \<and> i_kind I' = HOST \<and> i_dom I' = Some 1)"
proof -
  let ?I = "\<lparr>i_kind = HOST, i_dom = Some 1, i_node = span_a [], i_children = [],
               i_key = Some (KStr ''a''), i_path = ''0''\<rparr>"
  let ?R1 = "reconcile (Suc 2) no_components 0 (Some 0) (Some div_a) ''0'' span_rendered"
  let ?R2 = "reconcile (Suc 2) no_components 0 (Some 0) (Some (span_a [(''id'', VStr ''x'')])) ''0''
          span_rendered"
  have ok: "store_ok span_rendered" by code_simp
  have g: "map_of (instances span_rendered) 0 = Some ?I" by code_simp
  have f1: "fst ?R1 = Inr (Some 1)" by code_simp
  have f2: "fst ?R2 = Inr (Some 0)" by code_simp
  have c1: "?R1 = (Inr (Some 1), snd ?R1)" using f1 by (simp add: prod_eq_iff)
  have c2: "?R2 = (Inr (Some 0), snd ?R2)" using f2 by (simp add: prod_eq_iff)
  have 1: "map_of (instances (snd ?R1)) 0 = Some ?I \<and> map_of (instances span_rendered) 1 = None"
    using reconcile_replace_or_update [OF g ok c1] by (auto simp add: span_a_def div_a_def)
  have 2: "\<exists>I'. map_of (instances (snd ?R2)) 0 = Some I' \<and> i_kind I' = HOST \<and> i_dom I' = Some 1"
    using reconcile_replace_or_update [OF g ok c2] by (auto simp add: span_a_def)
  show ?thesis using ok g f1 f2 1 2 by blast
qed

section \<open>The render pass\<close>

text \<open>
  Claim C7. A render pass of an engine whose container and root node are set. No effect
  function is called during the pass, whatever its outcome. When the pass returns it is,
  in this order: the reconcile of the root node against the previous root Instance, begun
  with the set of visited paths empty; the attachment of the root Instance it returns; the
  cleanup of the hooks of the paths that were not visited; the copy and clearing of the effect
  queue. The effect queue ends empty, and the microtask queue has grown by the one task
  that flushes the copy, when the copy is not empty.
\<close>

theorem render_pass:
  assumes "root_container s = Some container" and "root_node s = Some node"
    and "render n ce s = (r, s')"
  shows "(\<exists>t. trace s' = trace s @ t \<and> \<not> list_ex is_effect t)
       \<and> (\<forall>u. r = Inr u \<longrightarrow>
            (\<exists>ri s1 s3.
                 reconcile n ce container (root_instance s) (Some node) ''0''
                   (s\<lparr>hooks_visited := []\<rparr>) = (Inr ri, s1)
               \<and> attachRoot n container ri (s1\<lparr>root_instance := ri\<rparr>) = (Inr (), s3)
               \<and> s' = scheduleEffects (cleanupUnusedHooks s3)
               \<and> root_instance s' = ri
               \<and> effects_queue s' = []
               \<and> (\<exists>q. effects_queue s1 = effects_queue s @ q)
               \<and> microtasks s' = microtasks s
                    @ (if effects_queue s1 = [] then [] else [FlushTask (effects_queue s1)])))"
  using render_steps [OF assms] by blast

theorem render_pass_witness:
  "root_container app_ready = Some 0 \<and> root_node app_ready = Some App
   \<and> fst (render 9 app_components app_ready) = Inr ()
   \<and> \<not> list_ex is_effect (trace (snd (render 9 app_components app_ready)))
   \<and> effects_queue (snd (render 9 app_components app_ready)) = []
   \<and> microtasks (snd (render 9 app_components app_ready)) = [FlushTask [(''0.cChild_0'', 1)]]
   \<and> root_instance (snd (render 9 app_components app_ready)) = Some 0"
proof -
  let ?R = "render 9 app_components app_ready"
  have c: "root_container app_ready = Some 0" by (simp add: app_ready_def)
  have nd: "root_node app_ready = Some App" by (simp add: app_ready_def)
  have f: "fst ?R = Inr ()" by code_simp
  have m: "microtasks (snd ?R) = [FlushTask [(''0.cChild_0'', 1)]]" by code_simp
  have ri: "root_instance (snd ?R) = Some 0" by code_simp
  have e: "?R = (Inr (), snd ?R)" using f by (simp add: prod_eq_iff)
  have t0: "trace app_ready = []" by (simp add: app_ready_def engine0_def)
  have 1: "\<not> list_ex is_effect (trace (snd ?R)) \<and> effects_queue (snd ?R) = []"
    using render_pass [OF c nd e] t0 by auto
  show ?thesis using c nd f m ri 1 by blast
qed

section \<open>Batching\<close>

text \<open>
  Claim C5. A setter of a stored path is called one or more times in a row, each call
  changing the value it finds, while no render is pending. The calls return; together they
  enqueue one render task and set the latch, and the slot holds the value of the last call.
  Any number of requests for a render enqueue one task when none was pending, and none
  while one is pending. When the microtask queue was empty before the calls, the next
  microtask is the render, run with the latch cleared on the state that holds the final value;
  whatever its outcome, it leaves the latch cleared and no render task in the queue, so that
  a request made after it enqueues a new render task.
\<close>

theorem batched_render:
  assumes h: "map_of (hooks_state s) path = Some arr"
    and ch: "changing (array_get arr c) args" and K: "args \<noteq> []"
    and ns: "\<not> scheduled s"
  shows "\<exists>s1. setStates path c args s = (Inr (), s1)
       \<and> microtasks s1 = microtasks s @ [RenderTask] \<and> scheduled s1
       \<and> (\<exists>arr'. map_of (hooks_state s1) path = Some arr'
              \<and> array_get arr' c = final_state (array_get arr c) args)
       \<and> (enqueueRender ^^ Suc k) s = enqueue RenderTask (s\<lparr>scheduled := True\<rparr>)
       \<and> (enqueueRender ^^ k) s1 = s1
       \<and> (microtasks s = [] \<longrightarrow>
             runMicrotask n ce er s1 = render n ce (s1\<lparr>microtasks := [], scheduled := False\<rparr>)
           \<and> (\<forall>r s2. runMicrotask n ce er s1 = (r, s2) \<longrightarrow>
                 \<not> scheduled s2 \<and> RenderTask \<notin> set (microtasks s2)
               \<and> enqueueRender s2 = s2\<lparr>scheduled := True, microtasks := microtasks s2 @ [RenderTask]\<rparr>))"
proof -
  from setStates_changing [OF h ch] obtain s1 where
    r: "setStates path c args s = (Inr (), s1)"
    and v: "\<exists>arr'. map_of (hooks_state s1) path = Some arr'
             \<and> array_get arr' c = final_state (array_get arr c) args"
    and sc: "scheduled s1 = (scheduled s \<or> args \<noteq> [])"
    and mt: "microtasks s1 = (if scheduled s \<or> args = [] then microtasks s else microtasks s @ [RenderTask])"
    by blast
  have sc1: "scheduled s1" using sc K by simp
  have mt1: "microtasks s1 = microtasks s @ [RenderTask]" using mt K ns by simp
  have idem: "(enqueueRender ^^ k) s1 = s1"
    by (induction k) (simp_all add: enqueueRender_scheduled [OF sc1])
  have run: "runMicrotask n ce er s1 = render n ce (s1\<lparr>microtasks := [], scheduled := False\<rparr>)"
    if "microtasks s = []"
    using that mt1 by (simp add: runMicrotask_def runTask_def)
  have after: "\<not> scheduled s2 \<and> RenderTask \<notin> set (microtasks s2)
               \<and> enqueueRender s2 = s2\<lparr>scheduled := True, microtasks := microtasks s2 @ [RenderTask]\<rparr>"
    if e: "microtasks s = []" and x: "runMicrotask n ce er s1 = (r, s2)" for r s2
  proof -
    have "render n ce (s1\<lparr>microtasks := [], scheduled := False\<rparr>) = (r, s2)"
      using run [OF e] x by simp
    from render_control [OF this] have a: "\<not> scheduled s2" and b: "RenderTask \<notin> set (microtasks s2)"
      by auto
    show ?thesis using a b by (simp add: enqueueRender_def enqueue_def)
  qed
  have many: "(enqueueRender ^^ Suc k) s = enqueue RenderTask (s\<lparr>scheduled := True\<rparr>)"
    using enqueueRender_funpow [OF ns, of "Suc k"] by (simp add: enqueue_def)
  show ?thesis using r mt1 sc1 v idem many run after by blast
qed


theorem batched_render_witness:
  "map_of (hooks_state app_mounted) ''0'' = Some [VBool True]
   \<and> changing (array_get [VBool True] 0)
        [NextValue (VBool False), NextValue (VNum 1), NextValue (VBool False)]
   \<and> \<not> scheduled app_mounted \<and> microtasks app_mounted = []
   \<and> fst (setStates ''0'' 0 [NextValue (VBool False), NextValue (VNum 1), NextValue (VBool False)]
          app_mounted) = Inr ()
   \<and> microtasks (snd (setStates ''0'' 0
          [NextValue (VBool False), NextValue (VNum 1), NextValue (VBool False)] app_mounted))
       = [RenderTask]
   \<and> \<not> scheduled (snd (runMicrotask 9 app_components app_effects (snd (setStates ''0'' 0
          [NextValue (VBool False), NextValue (VNum 1), NextValue (VBool False)] app_mounted))))
   \<and> RenderTask \<notin> set (microtasks (snd (runMicrotask 9 app_components app_effects
          (snd (setStates ''0'' 0
             [NextValue (VBool False), NextValue (VNum 1), NextValue (VBool False)] app_mounted)))))
   \<and> map_of (hooks_state (snd (runMicrotask 9 app_components app_effects (snd (setStates ''0'' 0
          [NextValue (VBool False), NextValue (VNum 1), NextValue (VBool False)] app_mounted)))))
        ''0'' = Some [VBool False]"
proof -
  let ?args = "[NextValue (VBool False), NextValue (VNum 1), NextValue (VBool False)]"
  let ?X = "setStates ''0'' 0 ?args app_mounted"
  let ?Y = "runMicrotask 9 app_components app_effects (snd ?X)"
  have h: "map_of (hooks_state app_mounted) ''0'' = Some [VBool True]" by code_simp
  have ch: "changing (array_get [VBool True] 0) ?args" by code_simp
  have K: "?args \<noteq> []" by simp
  have ns: "\<not> scheduled app_mounted" by code_simp
  have mt: "microtasks app_mounted = []" by code_simp
  have fin: "map_of (hooks_state (snd ?Y)) ''0'' = Some [VBool False]" by code_simp
  from batched_render [OF h ch K ns, of 2 9 app_components app_effects] obtain s1 where
    a: "?X = (Inr (), s1)" and b: "microtasks s1 = microtasks app_mounted @ [RenderTask]"
    and d: "microtasks app_mounted = [] \<longrightarrow>
             (\<forall>r s2. runMicrotask 9 app_components app_effects s1 = (r, s2) \<longrightarrow>
                 \<not> scheduled s2 \<and> RenderTask \<notin> set (microtasks s2))"
    by blast
  have s1: "s1 = snd ?X" using a by simp
  have 1: "fst ?X = Inr ()" using a by simp
  have 2: "microtasks (snd ?X) = [RenderTask]" using b mt s1 by simp
  have "?Y = (fst ?Y, snd ?Y)" by simp
  then have 3: "\<not> scheduled (snd ?Y) \<and> RenderTask \<notin> set (microtasks (snd ?Y))"
    using d mt s1 by blast
  show ?thesis using h ch ns mt 1 2 3 fin by blast
qed

section \<open>A setter after the unmount\<close>

text \<open>
  Claim C4. \<open>Child\<close> is mounted at the path \<open>0.cChild_0\<close> and holds a state and an effect
  there. After \<open>App\<close> stops rendering it, the pass that unmounts it removes the slots of
  the path. The setter that \<open>Child\<close> obtained at (\<open>0.cChild_0\<close>, 0), called then, throws a
  \<open>TypeError\<close>: \<open>state.get(path)\<close> is \<open>undefined\<close> and the closure indexes it.
\<close>

theorem setter_after_unmount_throws:
  "map_of (hooks_state app_mounted) ''0.cChild_0'' = Some [VNum 5, VEffect (Some []) (Some 9) 7]
   \<and> map_of (hooks_state child_unmounted) ''0.cChild_0'' = None
   \<and> fst (setState ''0.cChild_0'' 0 (NextValue (VNum 6)) child_unmounted) = Inl TypeError"
  by code_simp

section \<open>Keyed children\<close>

text \<open>
  Claim C2. A \<open>ul\<close> with two \<open>li\<close> children of keys \<open>0\<close> and \<open>"a"\<close> is reconciled, then
  the same \<open>ul\<close> with the two children swapped. The first call creates the Instances 1
  (key \<open>0\<close>) and 2 (key \<open>"a"\<close>) and four host nodes. After the second call the children
  are the Instances 2 and 3: the child of key \<open>0\<close> has a new Instance and a new host
  node (the fifth), and that host node is the only child left in the \<open>ul\<close> element.
\<close>

theorem key_zero_not_reused:
  "fst (reconcile_twice 9 no_components
          (ul [li (Some (KNum 0)), li (Some (KStr ''a''))])
          (ul [li (Some (KStr ''a'')), li (Some (KNum 0))]) engine0) = Inr (Some 0)
   \<and> map_option i_children (map_of (instances (snd (reconcile 9 no_components 0 None
          (Some (ul [li (Some (KNum 0)), li (Some (KStr ''a''))])) ''0'' engine0))) 0) = Some [1, 2]
   \<and> map_option i_key (map_of (instances (snd (reconcile 9 no_components 0 None
          (Some (ul [li (Some (KNum 0)), li (Some (KStr ''a''))])) ''0'' engine0))) 1)
       = Some (Some (KNum 0))
   \<and> next_dom (snd (reconcile 9 no_components 0 None
          (Some (ul [li (Some (KNum 0)), li (Some (KStr ''a''))])) ''0'' engine0)) = 4
   \<and> map_option i_children (map_of (instances (snd (reconcile_twice 9 no_components
          (ul [li (Some (KNum 0)), li (Some (KStr ''a''))])
          (ul [li (Some (KStr ''a'')), li (Some (KNum 0))]) engine0))) 0) = Some [2, 3]
   \<and> next_dom (snd (reconcile_twice 9 no_components
          (ul [li (Some (KNum 0)), li (Some (KStr ''a''))])
          (ul [li (Some (KStr ''a'')), li (Some (KNum 0))]) engine0)) = 5
   \<and> map_option d_childNodes (map_of (dom_nodes (snd (reconcile_twice 9 no_components
          (ul [li (Some (KNum 0)), li (Some (KStr ''a''))])
          (ul [li (Some (KStr ''a'')), li (Some (KNum 0))]) engine0))) 1) = Some [4]"
  by code_simp

text \<open>The same with the keys \<open>"x"\<close> and \<open>"y"\<close>: both Instances are kept, in the new order, no
  host node is created and the two host nodes have changed places.\<close>

lemma keyed_swap_reuses:
  "fst (reconcile_twice 9 no_components
          (ul [li (Some (KStr ''x'')), li (Some (KStr ''y''))])
          (ul [li (Some (KStr ''y'')), li (Some (KStr ''x''))]) engine0) = Inr (Some 0)
   \<and> map_option i_children (map_of (instances (snd (reconcile 9 no_components 0 None
          (Some (ul [li (Some (KStr ''x'')), li (Some (KStr ''y''))])) ''0'' engine0))) 0) = Some [1, 2]
   \<and> next_dom (snd (reconcile 9 no_components 0 None
          (Some (ul [li (Some (KStr ''x'')), li (Some (KStr ''y''))])) ''0'' engine0)) = 4
   \<and> map_option i_children (map_of (instances (snd (reconcile_twice 9 no_components
          (ul [li (Some (KStr ''x'')), li (Some (KStr ''y''))])
          (ul [li (Some (KStr ''y'')), li (Some (KStr ''x''))]) engine0))) 0) = Some [2, 1]
   \<and> next_dom (snd (reconcile_twice 9 no_components
          (ul [li (Some (KStr ''x'')), li (Some (KStr ''y''))])
          (ul [li (Some (KStr ''y'')), li (Some (KStr ''x''))]) engine0)) = 4
   \<and> map_option d_childNodes (map_of (dom_nodes (snd (reconcile_twice 9 no_components
          (ul [li (Some (KStr ''x'')), li (Some (KStr ''y''))])
          (ul [li (Some (KStr ''y'')), li (Some (KStr ''x''))]) engine0))) 1) = Some [3, 2]"
  by code_simp

section \<open>The hooks of an unmounted component\<close>

text \<open>
  Claim C8. A render pass that returns, begun outside any component, with a stored path
  that is not among the visited paths at its end. Then the slot array and the cursor entry of
  the path are gone; the cleanup of each of its effect slots that had one was called exactly
  once during the pass and no other cleanup of the path was called; the hooks were left
  with no cleanup to call again; and a component that is rendered at that path next gets
  the initial value of its first state hook, at cursor 0.
\<close>

theorem render_collects_unvisited:
  assumes c: "root_container s = Some container" and nd: "root_node s = Some node"
    and st: "hooks_componentStack s = []"
    and di: "distinct (map fst (hooks_state s))"
    and hs: "map_of (hooks_state s) p = Some hs"
    and e: "render n ce s = (Inr u, s')"
    and nv: "p \<notin> set (hooks_visited s')"
  shows "map_of (hooks_state s') p = None
       \<and> map_of (hooks_cursor s') p = None
       \<and> (\<forall>i c. count_list (trace s') (CallCleanup p i c) =
                  count_list (trace s) (CallCleanup p i c) +
                  (if i < length hs \<and> (\<exists>d e. hs ! i = VEffect d (Some c) e) then 1 else 0))
       \<and> fst (cleanupHooks p 0 (snd (cleanupHooks p 0 hs))) = []
       \<and> fst (useState initialValue (enter_component p s')) = Inr (initialState initialValue, p, 0)"
proof -
  let ?s0 = "s\<lparr>hooks_visited := []\<rparr>"
  from render_steps [OF c nd e] obtain ri s1 s3 where
    rc: "reconcile n ce container (root_instance s) (Some node) ''0'' ?s0 = (Inr ri, s1)"
    and at: "attachRoot n container ri (s1\<lparr>root_instance := ri\<rparr>) = (Inr (), s3)"
    and s': "s' = scheduleEffects (cleanupUnusedHooks s3)"
    by blast
  have fr: "frame hooks_kept (reconcile n ce container (root_instance s) (Some node) ''0'')"
    using engine_frame [OF prim_hooks_kept, of n ce] by blast
  have hk: "hooks_kept ?s0 s1" using fr rc by (rule frameD)
  have fc: "frame control_kept (reconcile n ce container (root_instance s) (Some node) ''0'')"
    using engine_frame [OF prim_control_kept, of n ce] by blast
  have ck: "control_kept ?s0 s1" using fc rc by (rule frameD)
  from attachRoot_dom_change [OF at] obtain dn nx where
    s3: "s3 = s1\<lparr>root_instance := ri, dom_nodes := dn, next_dom := nx\<rparr>"
    by (auto simp: dom_change_def)
  have v': "hooks_visited s' = hooks_visited s3"
    unfolding s'
    by (simp add: scheduleEffects_def Let_def enqueue_def cleanupUnusedHooks_def fold_cleanupPath_visited)
  have nv1: "p \<notin> set (hooks_visited s1)" using nv v' s3 by simp
  have h1: "map_of (hooks_state s1) p = Some hs"
    using hk st nv1 hs by (simp add: hooks_kept_def)
  have d1: "distinct (map fst (hooks_state s1))"
    using hk st di by (simp add: hooks_kept_def)
  have h3: "map_of (hooks_state s3) p = Some hs" using h1 s3 by simp
  have d3: "distinct (map fst (hooks_state s3))" using d1 s3 by simp
  have nv3: "p \<notin> set (hooks_visited s3)" using nv1 s3 by simp
  note G = cleanupUnusedHooks_collects [OF d3 h3 nv3, of initialValue]
  from ck obtain t where t: "trace s1 = trace s @ t" "\<not> list_ex is_call t"
    by (auto simp: control_kept_def)
  have tr: "count_list (trace s3) (CallCleanup p i c) = count_list (trace s) (CallCleanup p i c)" for i c
    using t s3 by (simp add: count_list_no_call)
  have f: "hooks_state s' = hooks_state (cleanupUnusedHooks s3)"
      "hooks_cursor s' = hooks_cursor (cleanupUnusedHooks s3)"
      "trace s' = trace (cleanupUnusedHooks s3)"
    unfolding s' by (simp_all add: scheduleEffects_def Let_def enqueue_def)
  have u: "fst (useState initialValue (enter_component p s'))
      = fst (useState initialValue (enter_component p (cleanupUnusedHooks s3)))"
    unfolding s' by (rule useState_scheduleEffects)
  show ?thesis using G by (simp add: f u tr)
qed


theorem render_collects_unvisited_witness:
  "root_container app_flag_off = Some 0 \<and> root_node app_flag_off = Some App
   \<and> hooks_componentStack app_flag_off = []
   \<and> distinct (map fst (hooks_state app_flag_off))
   \<and> map_of (hooks_state app_flag_off) ''0.cChild_0''
        = Some [VNum 5, VEffect (Some []) (Some 9) 7]
   \<and> fst (render 9 app_components app_flag_off) = Inr ()
   \<and> ''0.cChild_0'' \<notin> set (hooks_visited (snd (render 9 app_components app_flag_off)))
   \<and> map_of (hooks_state (snd (render 9 app_components app_flag_off))) ''0.cChild_0'' = None
   \<and> map_of (hooks_cursor (snd (render 9 app_components app_flag_off))) ''0.cChild_0'' = None
   \<and> count_list (trace app_flag_off) (CallCleanup ''0.cChild_0'' 1 9) = 0
   \<and> count_list (trace (snd (render 9 app_components app_flag_off)))
         (CallCleanup ''0.cChild_0'' 1 9) = 1
   \<and> fst (useState (InitValue (VNum 3))
          (enter_component ''0.cChild_0'' (snd (render 9 app_components app_flag_off))))
        = Inr (VNum 3, ''0.cChild_0'', 0)"
proof -
  let ?R = "render 9 app_components app_flag_off"
  let ?hs = "[VNum 5, VEffect (Some []) (Some 9) 7]"
  have c: "root_container app_flag_off = Some 0" by code_simp
  have nd: "root_node app_flag_off = Some App" by code_simp
  have st: "hooks_componentStack app_flag_off = []" by code_simp
  have di: "distinct (map fst (hooks_state app_flag_off))" by code_simp
  have hs: "map_of (hooks_state app_flag_off) ''0.cChild_0'' = Some ?hs" by code_simp
  have f: "fst ?R = Inr ()" by code_simp
  have nv: "''0.cChild_0'' \<notin> set (hooks_visited (snd ?R))" by code_simp
  have t0: "count_list (trace app_flag_off) (CallCleanup ''0.cChild_0'' 1 9) = 0" by code_simp
  have e: "?R = (Inr (), snd ?R)" using f by (simp add: prod_eq_iff)
  note G = render_collects_unvisited [OF c nd st di hs e nv, of "InitValue (VNum 3)"]
  have 1: "map_of (hooks_state (snd ?R)) ''0.cChild_0'' = None"
    and 2: "map_of (hooks_cursor (snd ?R)) ''0.cChild_0'' = None"
    and 4: "fst (useState (InitValue (VNum 3)) (enter_component ''0.cChild_0'' (snd ?R)))
        = Inr (VNum 3, ''0.cChild_0'', 0)"
    using G by simp_all
  have "count_list (trace (snd ?R)) (CallCleanup ''0.cChild_0'' 1 9) =
      count_list (trace app_flag_off) (CallCleanup ''0.cChild_0'' 1 9) +
        (if 1 < length ?hs \<and> (\<exists>d e. ?hs ! 1 = VEffect d (Some 9) e) then 1 else 0)"
    using G by blast
  then have 3: "count_list (trace (snd ?R)) (CallCleanup ''0.cChild_0'' 1 9) = 1"
    using t0 by simp
  show ?thesis using c nd st di hs f nv t0 1 2 3 4 by blast
qed

end
